theory Spec2Isabelle
  imports
    Main
    "HOL-Library.AList"
    "HOL-Library.Char_ord"
    "HOL-Library.List_Lexorder"
    "HOL-Library.Multiset"
begin

section \<open>The field utilities of the mappings editor\<close>

text \<open>
  The module flattens the recursive \<open>properties\<close> object of an index mapping into a map
  from generated ids to normalized fields, and converts it back. The embedding follows
  the TypeScript source function by function.

  \<^item> A JavaScript object whose key order the code observes (\<open>Object.entries\<close>,
    \<open>Object.values\<close>) is an association list in insertion order; writing a key is
    \<open>AList.update\<close>, which replaces the value of an existing key in place and appends a
    new key at the end, as a JavaScript object does for string keys that are not array
    indices. The keys of \<open>byId\<close> and \<open>aliases\<close> are uuids; where field names are keys,
    \<open>normalize\<close> sorts them itself, and the result of \<open>deNormalize\<close> is compared as a
    mapping with sorted keys.
  \<^item> \<open>getUniqueId\<close> is \<open>uuidv4()\<close>. The ids of one run are modelled as the numbers of the
    draws: the n-th call returns n, so two draws never collide. A run may start at any
    number.
  \<^item> \<open>undefined\<close> is \<open>None\<close>. An exception is a value of type \<open>error\<close>.
  \<^item> Field names are compared as JavaScript compares strings, character code by
    character code: the lexicographic order on lists of characters.
  \<^item> A function that follows ids through \<open>byId\<close> need not end on an arbitrary map. It
    takes a fuel argument that bounds the depth of its calls, and \<open>None\<close> is "no result
    within the fuel".
\<close>

subsection \<open>Data model (types.ts, as used by the module)\<close>

type_synonym fieldId = nat

datatype ChildFieldName = Properties | Fields

text \<open>
  The \<open>path\<close> parameter of a field is a dotted path string in a mapping; while a field is
  normalized the same key holds the id of the alias target. Both are strings in the
  source; the model keeps them apart by constructor.
\<close>

datatype pathParam = PathString string | PathId fieldId

text \<open>The \<open>source\<close> of a normalized field: the field with its name and without containers.\<close>

record 'v Source =
  name :: string
  type :: "string option"
  spath :: "pathParam option"
  params :: "(string \<times> 'v) list"

record FieldMeta =
  childFieldsName :: "ChildFieldName option"
  canHaveChildFields :: bool
  hasChildFields :: bool
  canHaveMultiFields :: bool
  hasMultiFields :: bool
  isExpanded :: bool
  childFields :: "fieldId list option"

text \<open>\<open>interface NormalizedField extends FieldMeta\<close>.\<close>

record 'v NormalizedField = FieldMeta +
  id' :: fieldId
  parentId :: "fieldId option"
  nestedDepth :: nat
  isMultiField :: bool
  path :: "string list"
  source :: "'v Source"

type_synonym 'v ById = "(fieldId \<times> 'v NormalizedField) list"

record 'v NormalizedFields =
  byId :: "'v ById"
  rootLevelFields :: "fieldId list"
  aliases :: "(fieldId \<times> fieldId list) list"
  maxNestedDepth :: nat

text \<open>
  The state that \<open>normalizeFields\<close> changes besides its arguments: the number of ids drawn
  so far and the closure variable \<open>maxNestedDepth\<close>.
\<close>

record normEnv =
  drawn :: nat
  maxDepth :: nat

text \<open>
  A field of the mapping, the value of a key of \<open>Fields\<close>. Its type is
  \<open>Omit<Field, 'name'>\<close>, but the object that arrives at run time may hold a \<open>name\<close> key
  all the same, and \<open>normalize\<close> reads it; so the key is part of the model, a string
  as in \<open>Field\<close>. The arguments are the keys \<open>name\<close>, \<open>type\<close> and \<open>path\<close>, the remaining
  parameters in key order, and the two child containers \<open>properties\<close> and \<open>fields\<close>.
  The five keys with an argument of their own are not listed among the parameters
  (\<open>reservedKeys\<close>). \<open>Fields\<close> is an object from field names to fields.
\<close>

datatype 'v Field = Field
  (fname: "string option")
  (ftype: "string option")
  (fpath: "pathParam option")
  (fparams: "(string \<times> 'v) list")
  (properties: "(string \<times> 'v Field) list option")
  (fields: "(string \<times> 'v Field) list option")

type_synonym 'v Fields = "(string \<times> 'v Field) list"


subsection \<open>getChildFieldsName, getFieldMeta\<close>

definition fieldsWithoutMultiFields :: "string list" where
  "fieldsWithoutMultiFields =
     [''aggregate_metric_double'', ''constant_keyword'', ''flattened'', ''geo_shape'',
      ''join'', ''percolator'', ''point'', ''shape'']"

definition getChildFieldsName :: "string option \<Rightarrow> ChildFieldName option" where
  "getChildFieldsName dataType =
     (if (case dataType of None \<Rightarrow> False | Some t \<Rightarrow> t \<in> set fieldsWithoutMultiFields)
      then None
      else if dataType = Some ''object'' \<or> dataType = Some ''nested'' then Some Properties
      else Some Fields)"

text \<open>\<open>field[childFieldsName]\<close>: the container stored under the key, if any.\<close>

fun childContainer :: "ChildFieldName option \<Rightarrow> 'v Field \<Rightarrow> 'v Fields option" where
  "childContainer (Some Properties) field = properties field"
| "childContainer (Some Fields) field = fields field"
| "childContainer None field = None"

text \<open>\<open>Boolean(c) && Object.keys(c).length > 0\<close>.\<close>

definition hasKeys :: "'v Fields option \<Rightarrow> bool" where
  "hasKeys c = (case c of None \<Rightarrow> False | Some entries \<Rightarrow> length entries > 0)"

definition getFieldMeta :: "'v Field \<Rightarrow> bool \<Rightarrow> FieldMeta" where
  "getFieldMeta field isMulti =
     (let childFieldsName = getChildFieldsName (ftype field);
          canHaveChildFields = (if isMulti then False else childFieldsName = Some Properties);
          hasChildFields =
            (if isMulti then False
             else canHaveChildFields \<and> hasKeys (childContainer childFieldsName field));
          canHaveMultiFields = (if isMulti then False else childFieldsName = Some Fields);
          hasMultiFields =
            (if isMulti then False
             else canHaveMultiFields \<and> hasKeys (childContainer childFieldsName field))
      in \<lparr>childFieldsName = childFieldsName,
          canHaveChildFields = canHaveChildFields,
          hasChildFields = hasChildFields,
          canHaveMultiFields = canHaveMultiFields,
          hasMultiFields = hasMultiFields,
          isExpanded = False,
          childFields = None\<rparr>)"

subsection \<open>normalize\<close>

text \<open>\<open>if (field.type === undefined && field.properties !== undefined) field.type = 'object'\<close>.\<close>

definition inferType :: "'v Field \<Rightarrow> 'v Field" where
  "inferType value =
     (if ftype value = None \<and> properties value \<noteq> None
      then Field (fname value) (Some ''object'') (fpath value) (fparams value)
             (properties value) (fields value)
      else value)"

text \<open>
  Sum of the sizes of the fields of a container; it only serves the termination proof.
\<close>

fun fieldSize :: "'v Field \<Rightarrow> nat" where
  "fieldSize (Field nm t p ps props flds) =
     Suc ((case props of None \<Rightarrow> 0 | Some entries \<Rightarrow> sum_list (map (\<lambda>kv. fieldSize (snd kv)) entries))
        + (case flds of None \<Rightarrow> 0 | Some entries \<Rightarrow> sum_list (map (\<lambda>kv. fieldSize (snd kv)) entries)))"

definition fieldsSize :: "'v Fields \<Rightarrow> nat" where
  "fieldsSize entries = sum_list (map (\<lambda>kv. fieldSize (snd kv)) entries)"

lemma fieldsSize_Cons: "fieldsSize ((k, v) # entries) = fieldSize v + fieldsSize entries"
  by (simp add: fieldsSize_def)

lemma fieldsSize_sort: "fieldsSize (sort_key fst entries) = fieldsSize entries"
proof -
  have "mset (map (\<lambda>kv. fieldSize (snd kv)) (sort_key fst entries))
        = mset (map (\<lambda>kv. fieldSize (snd kv)) entries)"
    by simp
  then show ?thesis
    unfolding fieldsSize_def by (metis sum_mset_sum_list)
qed

lemma fieldSize_inferType: "fieldSize (inferType value) = fieldSize value"
  by (cases "value") (simp add: inferType_def)

lemma fieldSize_pos: "0 < fieldSize field"
  by (cases field) simp

lemma childContainer_size:
  "childContainer c field = Some entries \<Longrightarrow> fieldsSize entries < fieldSize field"
proof (cases field)
  case (Field nm t p ps props flds)
  assume "childContainer c field = Some entries"
  with Field show ?thesis
    by (cases "(c, field)" rule: childContainer.cases) (auto simp: fieldsSize_def)
qed

lemma hasKeys_Some: "hasKeys c \<Longrightarrow> \<exists>entries. c = Some entries \<and> entries \<noteq> []"
  by (cases c) (auto simp: hasKeys_def)

lemma getFieldMeta_container:
  "hasChildFields (getFieldMeta field isMulti) \<or> hasMultiFields (getFieldMeta field isMulti) \<Longrightarrow>
   \<exists>entries. childContainer (childFieldsName (getFieldMeta field isMulti)) field = Some entries
     \<and> entries \<noteq> []"
  by (auto simp: getFieldMeta_def Let_def dest: hasKeys_Some split: if_splits)

text \<open>
  The object literal \<open>{id, parentId, nestedDepth, isMultiField, path, source: rest, ...meta}\<close>,
  where \<open>rest\<close> is \<open>field\<close> without \<open>properties\<close> and \<open>fields\<close>, and \<open>field\<close> is
  \<open>{name: propName, ...value}\<close>: the spread comes second, so a \<open>name\<close> key of \<open>value\<close>
  replaces \<open>propName\<close> as \<open>source.name\<close>. The \<open>path\<close> of the field is built from
  \<open>propName\<close> in either case.
\<close>

definition normalizedFieldOf ::
    "FieldMeta \<Rightarrow> fieldId \<Rightarrow> fieldId option \<Rightarrow> nat \<Rightarrow> bool \<Rightarrow> string list \<Rightarrow> string
      \<Rightarrow> 'v Field \<Rightarrow> 'v NormalizedField" where
  "normalizedFieldOf meta ident parent depth isMulti paths propName field =
     FieldMeta.extend meta
       (NormalizedField.fields ident parent depth isMulti
          (if length paths \<noteq> 0 then paths @ [propName] else [propName])
          \<lparr>name = (case fname field of None \<Rightarrow> propName | Some given \<Rightarrow> given),
           type = ftype field, spath = fpath field, params = fparams field\<rparr>)"

text \<open>
  \<open>normalizeFields\<close> sorts the entries by key and reduces over them (\<open>reduceFields\<close>);
  \<open>normalizeField\<close> is the callback of the reduce, which calls \<open>normalizeFields\<close> on the
  children of a field before the field is stored. The arguments are those of the source;
  \<open>env\<close> is threaded through, and the array \<open>arrayToKeepRef\<close> is returned with the ids
  pushed to it.

  \<open>field[childFieldsName!]!\<close> is read only when the field has child fields or
  multi-fields, and then the container exists (lemma \<open>getFieldMeta_container\<close>).
\<close>

function normalizeFields ::
    "'v Fields \<Rightarrow> 'v ById \<Rightarrow> string list \<Rightarrow> fieldId list \<Rightarrow> nat \<Rightarrow> bool \<Rightarrow> fieldId option
      \<Rightarrow> normEnv \<Rightarrow> 'v ById \<times> fieldId list \<times> normEnv"
  and reduceFields ::
    "'v Fields \<Rightarrow> 'v ById \<Rightarrow> string list \<Rightarrow> fieldId list \<Rightarrow> nat \<Rightarrow> bool \<Rightarrow> fieldId option
      \<Rightarrow> normEnv \<Rightarrow> 'v ById \<times> fieldId list \<times> normEnv"
  and normalizeField ::
    "'v ById \<Rightarrow> string \<times> 'v Field \<Rightarrow> string list \<Rightarrow> fieldId list \<Rightarrow> nat \<Rightarrow> bool
      \<Rightarrow> fieldId option \<Rightarrow> normEnv \<Rightarrow> 'v ById \<times> fieldId list \<times> normEnv"
where
  "normalizeFields props to paths arrayToKeepRef depth isMulti parent env =
     reduceFields (sort_key fst props) to paths arrayToKeepRef depth isMulti parent env"
| "reduceFields [] acc paths arrayToKeepRef depth isMulti parent env =
     (acc, arrayToKeepRef, env)"
| "reduceFields (entry # rest) acc paths arrayToKeepRef depth isMulti parent env =
     (case normalizeField acc entry paths arrayToKeepRef depth isMulti parent env of
        (acc1, arr1, env1) \<Rightarrow> reduceFields rest acc1 paths arr1 depth isMulti parent env1)"
| "normalizeField acc (propName, value) paths arrayToKeepRef depth isMulti parent env =
     (let ident = drawn env;
          env1 = env\<lparr>drawn := Suc (drawn env)\<rparr>;
          arr1 = arrayToKeepRef @ [ident];
          field = inferType value;
          meta = getFieldMeta field isMulti;
          (acc2, meta2, env2) =
            (if hasChildFields meta \<or> hasMultiFields meta then
               (let nextDepth =
                      (if canHaveChildFields meta \<or> canHaveMultiFields meta
                       then depth + 1 else depth);
                    env' = env1\<lparr>maxDepth := max (maxDepth env1) nextDepth\<rparr>;
                    (acc', kids, env'') =
                      normalizeFields (the (childContainer (childFieldsName meta) field)) acc
                        (paths @ [propName]) [] nextDepth (canHaveMultiFields meta)
                        (Some ident) env'
                in (acc', meta\<lparr>childFields := Some kids\<rparr>, env''))
             else (acc, meta, env1));
          normalizedField =
            normalizedFieldOf meta2 ident parent depth isMulti paths propName field
      in (AList.update ident normalizedField acc2, arr1, env2))"
  by pat_completeness auto
termination
proof (relation "measure (\<lambda>x. case x of
          Inl (props, _) \<Rightarrow> 3 * fieldsSize props + 2
        | Inr (Inl (entries, _)) \<Rightarrow> 3 * fieldsSize entries + 1
        | Inr (Inr (_, entry, _)) \<Rightarrow> 3 * fieldSize (snd entry))", goal_cases)
  case 1
  show ?case by simp
next
  case (2 props to paths arrayToKeepRef depth isMulti parent env)
  show ?case by (simp add: fieldsSize_sort)
next
  case (3 entry rest acc paths arrayToKeepRef depth isMulti parent env)
  show ?case by (cases entry) (simp add: fieldsSize_Cons)
next
  case (4 entry rest acc paths arrayToKeepRef depth isMulti parent env)
  show ?case using fieldSize_pos[of "snd entry"] by (cases entry) (simp add: fieldsSize_Cons)
next
  case (5 acc propName "value" paths arrayToKeepRef depth isMulti parent env
          ident env1 arr1 field meta nextDepth env')
  from 5 obtain entries where
    "childContainer (childFieldsName meta) field = Some entries"
    using getFieldMeta_container by blast
  with 5 show ?case
    using childContainer_size[of "childFieldsName meta" field entries]
    by (simp add: fieldSize_inferType)
qed

subsection \<open>Alias paths and ids\<close>

text \<open>\<open>path.join('.')\<close>.\<close>

fun joinDot :: "string list \<Rightarrow> string" where
  "joinDot [] = []"
| "joinDot [segment] = segment"
| "joinDot (segment # rest) = segment @ ''.'' @ joinDot rest"

text \<open>
  \<open>replaceAliasPathByAliasId\<close> visits the entries of \<open>byId\<close> once. For an alias field it
  searches the values of \<open>byId\<close> for the first field whose joined path is the alias's
  \<open>path\<close> parameter; when there is one, \<open>field.source.path = aliasTargetField.id\<close>
  changes the field stored under \<open>id\<close>, and \<open>id\<close> is pushed to the target's list in
  \<open>aliases\<close>. Each field object is changed only at its own visit, so the \<open>field\<close> of an
  entry is the one \<open>Object.entries\<close> returned.
\<close>

definition setSourcePath :: "pathParam \<Rightarrow> 'v NormalizedField \<Rightarrow> 'v NormalizedField" where
  "setSourcePath p field = field\<lparr>source := (source field)\<lparr>spath := Some p\<rparr>\<rparr>"

definition aliasStep ::
    "fieldId \<times> 'v NormalizedField \<Rightarrow> (fieldId \<times> fieldId list) list \<times> 'v ById
      \<Rightarrow> (fieldId \<times> fieldId list) list \<times> 'v ById" where
  "aliasStep entry st =
     (case (entry, st) of ((ident, field), (aliasesMap, fieldsById)) \<Rightarrow>
        if type (source field) = Some ''alias'' then
          (case List.find (\<lambda>f. Some (PathString (joinDot (path f))) = spath (source field))
                  (map snd fieldsById) of
             Some aliasTargetField \<Rightarrow>
               (AList.update (id' aliasTargetField)
                  ((case map_of aliasesMap (id' aliasTargetField) of None \<Rightarrow> [] | Some ids \<Rightarrow> ids)
                     @ [ident])
                  aliasesMap,
                AList.map_entry ident (setSourcePath (PathId (id' aliasTargetField))) fieldsById)
           | None \<Rightarrow> (aliasesMap, fieldsById))
        else (aliasesMap, fieldsById))"

definition replaceAliasPathByAliasId ::
    "'v ById \<Rightarrow> (fieldId \<times> fieldId list) list \<times> 'v ById" where
  "replaceAliasPathByAliasId fieldsById = fold aliasStep fieldsById ([], fieldsById)"

text \<open>
  \<open>normalize\<close>; \<open>firstId\<close> is the number of the first id the run draws. The default
  arguments of the first call are written out.
\<close>

definition normalize :: "nat \<Rightarrow> 'v Fields \<Rightarrow> 'v NormalizedFields" where
  "normalize firstId fieldsToNormalize =
     (case normalizeFields fieldsToNormalize [] [] [] 0 False None
             \<lparr>drawn = firstId, maxDepth = 0\<rparr> of
        (to, rootIds, env) \<Rightarrow>
          (case replaceAliasPathByAliasId to of
             (aliasesMap, fieldsById) \<Rightarrow>
               \<lparr>byId = fieldsById, rootLevelFields = rootIds, aliases = aliasesMap,
                maxNestedDepth = maxDepth env\<rparr>))"

subsection \<open>deNormalize\<close>

text \<open>
  \<open>TypeError\<close>: a property of \<open>undefined\<close> is read. \<open>Error\<close>: \<open>throw new Error(message)\<close>.
  \<open>UndefinedChildFieldsName\<close>: \<open>deNormalize\<close> meets a field with \<open>childFields\<close> and no
  \<open>childFieldsName\<close>; the source then stores the children under the key \<open>'undefined'\<close>,
  which no \<open>Field\<close> has, and the model stops there.
\<close>

datatype error = TypeError | Error string | UndefinedChildFieldsName

definition replaceAliasIdByAliasPath ::
    "(fieldId \<times> fieldId list) list \<Rightarrow> 'v ById \<Rightarrow> 'v ById" where
  "replaceAliasIdByAliasPath aliasesMap fieldsById =
     fold (\<lambda>(targetId, aliasesIds) updatedById.
             (let p = (case map_of updatedById targetId of
                         Some target \<Rightarrow> joinDot (path target) | None \<Rightarrow> [])
              in fold (\<lambda>ident updatedById.
                         (case map_of updatedById ident of
                            None \<Rightarrow> updatedById
                          | Some aliasField \<Rightarrow>
                              AList.update ident (setSourcePath (PathString p) aliasField)
                                updatedById))
                   aliasesIds updatedById))
       aliasesMap fieldsById"

fun setContainer :: "ChildFieldName \<Rightarrow> 'v Fields \<Rightarrow> 'v Field \<Rightarrow> 'v Field" where
  "setContainer Properties c (Field nm t p ps props flds) = Field nm t p ps (Some c) flds"
| "setContainer Fields c (Field nm t p ps props flds) = Field nm t p ps props (Some c)"

text \<open>\<open>const { name, ...normalizedField } = source\<close>: the field without its name.\<close>

definition fieldOfSource :: "'v Source \<Rightarrow> 'v Field" where
  "fieldOfSource src = Field None (type src) (spath src) (params src) None None"

text \<open>
  \<open>deNormalizePaths\<close> follows \<open>childFields\<close> through \<open>byId\<close>, which in an arbitrary
  \<open>NormalizedFields\<close> value need not end; the fuel bounds the depth of the calls and
  \<open>None\<close> is "no result within the fuel". The fields of a container are assembled
  before the container is stored: in the source \<open>to[name] = field\<close> comes first and the
  children are added to the same object afterwards.
\<close>

fun deNormalizePaths ::
    "nat \<Rightarrow> 'v ById \<Rightarrow> fieldId list \<Rightarrow> 'v Fields \<Rightarrow> (error + 'v Fields) option" where
  "deNormalizePaths 0 serializedFieldsById ids to = None"
| "deNormalizePaths (Suc fuel) serializedFieldsById [] to = Some (Inr to)"
| "deNormalizePaths (Suc fuel) serializedFieldsById (ident # ids) to =
     (case map_of serializedFieldsById ident of
        None \<Rightarrow> Some (Inl TypeError)
      | Some nf \<Rightarrow>
          (let field = fieldOfSource (source nf) in
           case childFields nf of
             None \<Rightarrow>
               deNormalizePaths (Suc fuel) serializedFieldsById ids
                 (AList.update (name (source nf)) field to)
           | Some kids \<Rightarrow>
               (case childFieldsName nf of
                  None \<Rightarrow> Some (Inl UndefinedChildFieldsName)
                | Some key \<Rightarrow>
                    (case deNormalizePaths fuel serializedFieldsById kids [] of
                       None \<Rightarrow> None
                     | Some (Inl e) \<Rightarrow> Some (Inl e)
                     | Some (Inr c) \<Rightarrow>
                         deNormalizePaths (Suc fuel) serializedFieldsById ids
                           (AList.update (name (source nf)) (setContainer key c field) to)))))"

definition deNormalize :: "nat \<Rightarrow> 'v NormalizedFields \<Rightarrow> (error + 'v Fields) option" where
  "deNormalize fuel nfs =
     deNormalizePaths fuel (replaceAliasIdByAliasPath (aliases nfs) (byId nfs))
       (rootLevelFields nfs) []"

subsection \<open>updateFieldsPathAfterFieldNameChange\<close>

text \<open>
  \<open>updateFieldPath\<close> writes the new path of \<open>_field\<close> into \<open>updatedById\<close> and calls itself
  on the children, which \<open>childFields!.map((fieldId) => byId[fieldId])\<close> reads from the
  unchanged \<open>byId\<close>; \<open>updateChildPaths\<close> is the \<open>forEach\<close> over them. Reading
  \<open>childFields\<close> of a field that has none, or a property of a child that \<open>byId\<close> does not
  hold, is a \<open>TypeError\<close>. The fuel bounds the depth of the calls.
\<close>

fun updateFieldPath ::
    "nat \<Rightarrow> 'v ById \<Rightarrow> 'v NormalizedField \<Rightarrow> string list \<Rightarrow> 'v ById
      \<Rightarrow> (error + 'v ById) option"
  and updateChildPaths ::
    "nat \<Rightarrow> 'v ById \<Rightarrow> 'v NormalizedField option list \<Rightarrow> string list \<Rightarrow> 'v ById
      \<Rightarrow> (error + 'v ById) option"
where
  "updateFieldPath 0 fieldsById field paths updatedById = None"
| "updateFieldPath (Suc fuel) fieldsById field paths updatedById =
     (let fieldName = name (source field);
          newPath = (if length paths = 0 then [fieldName] else paths @ [fieldName]);
          updated1 = AList.update (id' field) (field\<lparr>path := newPath\<rparr>) updatedById
      in if hasChildFields field \<or> hasMultiFields field then
           (case childFields field of
              None \<Rightarrow> Some (Inl TypeError)
            | Some kids \<Rightarrow>
                updateChildPaths fuel fieldsById (map (map_of fieldsById) kids)
                  (paths @ [fieldName]) updated1)
         else Some (Inr updated1))"
| "updateChildPaths fuel fieldsById [] paths updatedById = Some (Inr updatedById)"
| "updateChildPaths fuel fieldsById (child # rest) paths updatedById =
     (case child of
        None \<Rightarrow> Some (Inl TypeError)
      | Some childField \<Rightarrow>
          (case updateFieldPath fuel fieldsById childField paths updatedById of
             Some (Inr updated1) \<Rightarrow> updateChildPaths fuel fieldsById rest paths updated1
           | failure \<Rightarrow> failure))"

text \<open>The result is the pair \<open>(updatedFieldPath, updatedById)\<close>.\<close>

definition updateFieldsPathAfterFieldNameChange ::
    "nat \<Rightarrow> 'v NormalizedField \<Rightarrow> 'v ById \<Rightarrow> (error + string list \<times> 'v ById) option" where
  "updateFieldsPathAfterFieldNameChange fuel field fieldsById =
     (case (case parentId field of
              None \<Rightarrow> Inr []
            | Some parent \<Rightarrow>
                (case map_of fieldsById parent of
                   None \<Rightarrow> Inl TypeError
                 | Some parentField \<Rightarrow> Inr (path parentField))) of
        Inl e \<Rightarrow> Some (Inl e)
      | Inr paths \<Rightarrow>
          (case updateFieldPath fuel fieldsById field paths fieldsById of
             None \<Rightarrow> None
           | Some (Inl e) \<Rightarrow> Some (Inl e)
           | Some (Inr updatedById) \<Rightarrow>
               (case map_of updatedById (id' field) of
                  None \<Rightarrow> Some (Inl TypeError)
                | Some updatedField \<Rightarrow> Some (Inr (path updatedField, updatedById)))))"

subsection \<open>Traversal helpers\<close>

text \<open>
  \<open>getChildFields\<close> pushes each child to \<open>to\<close> and calls itself on it; \<open>eachChildField\<close>
  is its \<open>forEach\<close>. A child id that \<open>byId\<close> does not hold gives \<open>undefined\<close>, which is
  pushed and then passed to \<open>getChildFields\<close>, where reading \<open>_field.hasChildFields\<close> is
  a \<open>TypeError\<close>.
\<close>

fun getChildFields ::
    "nat \<Rightarrow> 'v ById \<Rightarrow> 'v NormalizedField \<Rightarrow> 'v NormalizedField list
      \<Rightarrow> (error + 'v NormalizedField list) option"
  and eachChildField ::
    "nat \<Rightarrow> 'v ById \<Rightarrow> 'v NormalizedField option list \<Rightarrow> 'v NormalizedField list
      \<Rightarrow> (error + 'v NormalizedField list) option"
where
  "getChildFields 0 fieldsById field to = None"
| "getChildFields (Suc fuel) fieldsById field to =
     (if hasChildFields field \<or> hasMultiFields field then
        (case childFields field of
           None \<Rightarrow> Some (Inl TypeError)
         | Some kids \<Rightarrow> eachChildField fuel fieldsById (map (map_of fieldsById) kids) to)
      else Some (Inr to))"
| "eachChildField fuel fieldsById [] to = Some (Inr to)"
| "eachChildField fuel fieldsById (child # rest) to =
     (case child of
        None \<Rightarrow> Some (Inl TypeError)
      | Some childField \<Rightarrow>
          (case getChildFields fuel fieldsById childField (to @ [childField]) of
             Some (Inr to1) \<Rightarrow> eachChildField fuel fieldsById rest to1
           | failure \<Rightarrow> failure))"

definition getAllChildFields ::
    "nat \<Rightarrow> 'v NormalizedField \<Rightarrow> 'v ById \<Rightarrow> (error + 'v NormalizedField list) option" where
  "getAllChildFields fuel field fieldsById = getChildFields fuel fieldsById field []"

text \<open>
  \<open>getAllDescendantAliases\<close>; \<open>descendantAliasesOf\<close> is the \<open>forEach\<close> over
  \<open>field.childFields\<close>, which returns early for an id that \<open>byId\<close> does not hold.
\<close>

fun getAllDescendantAliases ::
    "nat \<Rightarrow> 'v NormalizedField \<Rightarrow> 'v NormalizedFields \<Rightarrow> fieldId list \<Rightarrow> fieldId list option"
  and descendantAliasesOf ::
    "nat \<Rightarrow> fieldId list \<Rightarrow> 'v NormalizedFields \<Rightarrow> fieldId list \<Rightarrow> fieldId list option"
where
  "getAllDescendantAliases 0 field nfs aliasesIds = None"
| "getAllDescendantAliases (Suc fuel) field nfs aliasesIds =
     (let hasAliases =
            (case map_of (aliases nfs) (id' field) of
               None \<Rightarrow> False
             | Some ids \<Rightarrow> length ids \<noteq> 0)
      in if \<not> hasAliases \<and> \<not> hasChildFields field \<and> \<not> hasMultiFields field
         then Some aliasesIds
         else
           (let aliasesIds1 =
                  (if hasAliases
                   then aliasesIds @ (case map_of (aliases nfs) (id' field) of
                                        None \<Rightarrow> [] | Some ids \<Rightarrow> ids)
                   else aliasesIds)
            in case childFields field of
                 None \<Rightarrow> Some aliasesIds1
               | Some kids \<Rightarrow> descendantAliasesOf fuel kids nfs aliasesIds1))"
| "descendantAliasesOf fuel [] nfs aliasesIds = Some aliasesIds"
| "descendantAliasesOf fuel (ident # rest) nfs aliasesIds =
     (case map_of (byId nfs) ident of
        None \<Rightarrow> descendantAliasesOf fuel rest nfs aliasesIds
      | Some childField \<Rightarrow>
          (case getAllDescendantAliases fuel childField nfs aliasesIds of
             None \<Rightarrow> None
           | Some aliasesIds1 \<Rightarrow> descendantAliasesOf fuel rest nfs aliasesIds1))"

text \<open>
  \<open>getFieldAncestors\<close>: the \<open>while (parent)\<close> loop is \<open>ancestorsLoop\<close>, with the fuel
  bounding its iterations. \<open>currentField.parentId\<close> with \<open>fieldId\<close> not in \<open>byId\<close> is a
  \<open>TypeError\<close>.
\<close>

definition parentOf :: "'v ById \<Rightarrow> 'v NormalizedField \<Rightarrow> 'v NormalizedField option" where
  "parentOf fieldsById field =
     (case parentId field of None \<Rightarrow> None | Some parent \<Rightarrow> map_of fieldsById parent)"

fun ancestorsLoop ::
    "nat \<Rightarrow> 'v ById \<Rightarrow> 'v NormalizedField option \<Rightarrow> (fieldId \<times> bool) list
      \<Rightarrow> (fieldId \<times> bool) list option" where
  "ancestorsLoop 0 fieldsById parent ancestors = None"
| "ancestorsLoop (Suc fuel) fieldsById None ancestors = Some ancestors"
| "ancestorsLoop (Suc fuel) fieldsById (Some parent) ancestors =
     ancestorsLoop fuel fieldsById (parentOf fieldsById parent)
       (AList.update (id' parent) True ancestors)"

definition getFieldAncestors ::
    "nat \<Rightarrow> fieldId \<Rightarrow> 'v ById \<Rightarrow> (error + (fieldId \<times> bool) list) option" where
  "getFieldAncestors fuel ident fieldsById =
     (case map_of fieldsById ident of
        None \<Rightarrow> Some (Inl TypeError)
      | Some currentField \<Rightarrow>
          map_option Inr (ancestorsLoop fuel fieldsById (parentOf fieldsById currentField) []))"

subsection \<open>getTypeMetaFromSource, getFieldConfig\<close>

text \<open>
  The tables of \<open>../constants\<close> are parameters. \<open>mainTypes s\<close> says that
  \<open>MAIN_DATA_TYPE_DEFINITION[s]\<close> is defined, \<open>subTypeMap\<close> is \<open>SUB_TYPE_MAP_TO_MAIN\<close>. The
  result is the pair \<open>(mainType, subType)\<close>.
\<close>

definition getMainTypeFromSubType :: "(string \<Rightarrow> string option) \<Rightarrow> string \<Rightarrow> string" where
  "getMainTypeFromSubType subTypeMap subType =
     (case subTypeMap subType of Some mainType \<Rightarrow> mainType | None \<Rightarrow> ''other'')"

definition getTypeMetaFromSource ::
    "(string \<Rightarrow> bool) \<Rightarrow> (string \<Rightarrow> string option) \<Rightarrow> string
      \<Rightarrow> error + string \<times> string option" where
  "getTypeMetaFromSource mainTypes subTypeMap sourceType =
     (if \<not> mainTypes sourceType then
        (let mainType = getMainTypeFromSubType subTypeMap sourceType
         in if mainType = [] then
              Inl (Error (''Property type \"'' @ sourceType
                          @ ''\" not recognized and no subType was found for it.''))
            else Inr (mainType, Some sourceType))
      else Inr (sourceType, None))"

text \<open>
  An entry of \<open>PARAMETERS_DEFINITION\<close>: its \<open>fieldConfig\<close>, and its \<open>props\<close>, each with its
  own \<open>fieldConfig\<close>. A field configuration is an object, written as the list of its
  entries, so \<open>{}\<close> is the empty list. \<open>PARAMETERS_DEFINITION[param].props\<close> with an
  unregistered \<open>param\<close> is a \<open>TypeError\<close>.
\<close>

datatype 'c ParameterDefinition = ParameterDefinition
  (fieldConfig: "(string \<times> 'c) list option")
  (props: "(string \<times> (string \<times> 'c) list option) list option")

definition getFieldConfig ::
    "(string \<Rightarrow> 'c ParameterDefinition option) \<Rightarrow> string \<Rightarrow> string option
      \<Rightarrow> error + (string \<times> 'c) list" where
  "getFieldConfig parametersDefinition param prop =
     (case prop of
        Some propName \<Rightarrow>
          (case parametersDefinition param of
             None \<Rightarrow> Inl TypeError
           | Some paramDef \<Rightarrow>
               (case (case props paramDef of
                        None \<Rightarrow> None
                      | Some propDefinitions \<Rightarrow> map_of propDefinitions propName) of
                  None \<Rightarrow>
                    Inl (Error (''No field config found for prop \"'' @ propName
                                @ ''\" on param \"'' @ param @ ''\" ''))
                | Some propFieldConfig \<Rightarrow>
                    Inr (case propFieldConfig of None \<Rightarrow> [] | Some config \<Rightarrow> config)))
      | None \<Rightarrow>
          Inr (case parametersDefinition param of
                 None \<Rightarrow> []
               | Some paramDef \<Rightarrow>
                   (case fieldConfig paramDef of None \<Rightarrow> [] | Some config \<Rightarrow> config)))"

subsection \<open>Mappings up to the order of sibling keys\<close>

text \<open>
  \<open>sortFields\<close> is a mapping with the keys of every container in lexicographic order:
  the mapping "modulo lexicographic reordering of sibling keys" of the round-trip law.
\<close>

fun sortFields :: "'v Fields \<Rightarrow> 'v Fields"
  and sortField :: "'v Field \<Rightarrow> 'v Field" where
  "sortFields entries = map (\<lambda>(k, v). (k, sortField v)) (sort_key fst entries)"
| "sortField (Field nm t p ps pr fl) =
     Field nm t p ps (map_option sortFields pr) (map_option sortFields fl)"


text \<open>
  Two mappings that are equal as key-value maps: at every level the same field names,
  each once, in any order, with equal \<open>name\<close> keys, types and parameters and containers
  that are equal in the same sense.
\<close>

fun sameFields :: "'v Fields \<Rightarrow> 'v Fields \<Rightarrow> bool"
  and sameField :: "'v Field \<Rightarrow> 'v Field \<Rightarrow> bool" where
  "sameFields m1 m2 =
     (distinct (map fst m1) \<and> distinct (map fst m2) \<and> set (map fst m1) = set (map fst m2)
      \<and> (\<forall>(k, v) \<in> set m1. case map_of m2 k of None \<Rightarrow> False | Some w \<Rightarrow> sameField v w))"
| "sameField (Field nm t p ps pr fl) w =
     (fname w = nm \<and> ftype w = t \<and> fpath w = p \<and> fparams w = ps
      \<and> (case pr of
            None \<Rightarrow> properties w = None
          | Some c \<Rightarrow> (case properties w of None \<Rightarrow> False | Some c' \<Rightarrow> sameFields c c'))
      \<and> (case fl of
            None \<Rightarrow> fields w = None
          | Some c \<Rightarrow> (case fields w of None \<Rightarrow> False | Some c' \<Rightarrow> sameFields c c')))"

text \<open>
  In a mapping given to \<open>normalize\<close> the \<open>path\<close> parameters are strings; ids are written
  there by \<open>normalize\<close> only.
\<close>

fun stringPaths :: "'v Fields \<Rightarrow> bool"
  and stringPath :: "'v Field \<Rightarrow> bool" where
  "stringPaths entries = (\<forall>(k, v) \<in> set entries. stringPath v)"
| "stringPath (Field nm t p ps pr fl) =
     ((case p of Some (PathId i) \<Rightarrow> False | _ \<Rightarrow> True)
      \<and> (case pr of None \<Rightarrow> True | Some c \<Rightarrow> stringPaths c)
      \<and> (case fl of None \<Rightarrow> True | Some c \<Rightarrow> stringPaths c))"

text \<open>
  A \<open>NormalizedFields\<close> value compared by path: every id is replaced by the path of the
  field stored under it. A field is shown as its path, the field with the ids blanked,
  the paths of its parent and of its children, and its \<open>source.path\<close>, which for an id
  is the path of the target.
\<close>

type_synonym 'v fieldByPath =
  "string list \<times> 'v NormalizedField \<times> string list option option
   \<times> string list option list option \<times> (string + string list option) option"

definition pathOfId :: "'v ById \<Rightarrow> fieldId \<Rightarrow> string list option" where
  "pathOfId fieldsById ident = map_option path (map_of fieldsById ident)"

definition fieldByPath :: "'v ById \<Rightarrow> 'v NormalizedField \<Rightarrow> 'v fieldByPath" where
  "fieldByPath fieldsById f =
     (path f,
      f\<lparr>id' := 0, parentId := None, childFields := None,
        source := (source f)\<lparr>spath := None\<rparr>\<rparr>,
      map_option (pathOfId fieldsById) (parentId f),
      map_option (map (pathOfId fieldsById)) (childFields f),
      map_option (\<lambda>p. case p of PathString s \<Rightarrow> Inl s
                              | PathId target \<Rightarrow> Inr (pathOfId fieldsById target))
        (spath (source f)))"

definition byPath ::
    "'v NormalizedFields
      \<Rightarrow> 'v fieldByPath list \<times> string list option list
         \<times> (string list option \<times> string list option list) list \<times> nat" where
  "byPath nfs =
     (map (\<lambda>(ident, f). fieldByPath (byId nfs) f) (byId nfs),
      map (pathOfId (byId nfs)) (rootLevelFields nfs),
      map (\<lambda>(target, ids). (pathOfId (byId nfs) target, map (pathOfId (byId nfs)) ids))
        (aliases nfs),
      maxNestedDepth nfs)"

subsection \<open>Example inputs\<close>

text \<open>\<open>{target: {type: 'keyword'}, link: {type: 'alias', path: 'target'}}\<close>.\<close>

definition aliasExample :: "'v Fields" where
  "aliasExample =
     [(''target'', Field None (Some ''keyword'') None [] None None),
      (''link'', Field None (Some ''alias'') (Some (PathString ''target'')) [] None None)]"

text \<open>
  \<open>{a: {type: object, properties: {b: {type: object, properties: {c: {type: text}}}}}}\<close>,
  and the same mapping with a \<open>keyword\<close> multi-field \<open>raw\<close> under \<open>c\<close>.
\<close>

definition depthExample :: "'v Fields" where
  "depthExample =
     [(''a'', Field None (Some ''object'') None []
        (Some [(''b'', Field None (Some ''object'') None []
                 (Some [(''c'', Field None (Some ''text'') None [] None None)]) None)]) None)]"

definition depthExampleMulti :: "'v Fields" where
  "depthExampleMulti =
     [(''a'', Field None (Some ''object'') None []
        (Some [(''b'', Field None (Some ''object'') None []
                 (Some [(''c'', Field None (Some ''text'') None [] None
                          (Some [(''raw'', Field None (Some ''keyword'') None [] None None)]))])
                 None)]) None)]"

text \<open>\<open>{link: {type: 'alias', path: 'missing'}}\<close>.\<close>

definition unresolvedExample :: "'v Fields" where
  "unresolvedExample =
     [(''link'', Field None (Some ''alias'') (Some (PathString ''missing'')) [] None None)]"

text \<open>
  The fields of \<open>{a: {type: object, properties: {b: {type: text}}}}\<close> as \<open>normalize\<close>
  stores them with 0 as first id, and the field \<open>a\<close> renamed to \<open>z\<close>.
\<close>

definition renameChild :: "unit NormalizedField" where
  "renameChild =
     \<lparr>childFieldsName = Some Fields, canHaveChildFields = False, hasChildFields = False,
      canHaveMultiFields = True, hasMultiFields = False, isExpanded = False,
      childFields = None, id' = 1, parentId = Some 0, nestedDepth = 1,
      isMultiField = False, path = [''a'', ''b''],
      source = \<lparr>name = ''b'', type = Some ''text'', spath = None, params = []\<rparr>\<rparr>"

definition renameParent :: "unit NormalizedField" where
  "renameParent =
     \<lparr>childFieldsName = Some Properties, canHaveChildFields = True, hasChildFields = True,
      canHaveMultiFields = False, hasMultiFields = False, isExpanded = False,
      childFields = Some [1], id' = 0, parentId = None, nestedDepth = 0,
      isMultiField = False, path = [''a''],
      source = \<lparr>name = ''a'', type = Some ''object'', spath = None, params = []\<rparr>\<rparr>"

definition renameById :: "unit ById" where
  "renameById = [(1, renameChild), (0, renameParent)]"

definition renamedField :: "unit NormalizedField" where
  "renamedField = renameParent\<lparr>source := (source renameParent)\<lparr>name := ''z''\<rparr>\<rparr>"






text \<open>
  \<open>{b: {type: 'object', properties: {y: {type: 'text'}, x: {type: 'keyword'}}},
  a: {type: 'keyword'}}\<close>, and the same mapping with the keys of both objects in
  lexicographic order.
\<close>

definition orderExample :: "'v Fields" where
  "orderExample =
     [(''b'', Field None (Some ''object'') None []
        (Some [(''y'', Field None (Some ''text'') None [] None None),
               (''x'', Field None (Some ''keyword'') None [] None None)]) None),
      (''a'', Field None (Some ''keyword'') None [] None None)]"

definition orderExampleSorted :: "'v Fields" where
  "orderExampleSorted =
     [(''a'', Field None (Some ''keyword'') None [] None None),
      (''b'', Field None (Some ''object'') None []
        (Some [(''x'', Field None (Some ''keyword'') None [] None None),
               (''y'', Field None (Some ''text'') None [] None None)]) None)]"

text \<open>The field with a given path, and its id.\<close>

definition fieldAt :: "string list \<Rightarrow> 'v NormalizedFields \<Rightarrow> 'v NormalizedField option" where
  "fieldAt p nfs = List.find (\<lambda>f. path f = p) (map snd (byId nfs))"

definition idOf :: "string list \<Rightarrow> 'v NormalizedFields \<Rightarrow> fieldId option" where
  "idOf p nfs = map_option id' (fieldAt p nfs)"

text \<open>Small tables standing for those of \<open>../constants\<close>.\<close>

definition sampleMainTypes :: "string \<Rightarrow> bool" where
  "sampleMainTypes s = (s \<in> set [''text'', ''keyword'', ''numeric'', ''other''])"

definition sampleSubTypeMap :: "string \<Rightarrow> string option" where
  "sampleSubTypeMap = map_of [(''float'', ''numeric''), (''long'', ''numeric'')]"

definition sampleParametersDefinition :: "string \<Rightarrow> string ParameterDefinition option" where
  "sampleParametersDefinition =
     map_of
       [(''boost'', ParameterDefinition (Some [(''defaultValue'', ''1.0'')]) None),
        (''dynamic'', ParameterDefinition None None),
        (''fielddata_frequency_filter'',
           ParameterDefinition None
             (Some [(''min_segment_size'', Some [(''defaultValue'', ''50'')]),
                    (''max'', None)]))]"

text \<open>
  A field with one child id, 1, in a \<open>byId\<close> that holds only the field itself: the child
  id dangles.
\<close>

definition danglingParent :: "unit NormalizedField" where
  "danglingParent =
     \<lparr>childFieldsName = Some Properties, canHaveChildFields = True, hasChildFields = True,
      canHaveMultiFields = False, hasMultiFields = False, isExpanded = False,
      childFields = Some [1], id' = 0, parentId = None, nestedDepth = 0,
      isMultiField = False, path = [''a''],
      source = \<lparr>name = ''a'', type = Some ''object'', spath = None, params = []\<rparr>\<rparr>"

definition danglingFields :: "unit NormalizedFields" where
  "danglingFields =
     \<lparr>byId = [(0, danglingParent)], rootLevelFields = [0], aliases = [], maxNestedDepth = 1\<rparr>"

section \<open>Properties\<close>

lemmas normalize_eval =
  normalizeFields.simps normalizeField.simps normalize_def Let_def inferType_def getFieldMeta_def getChildFieldsName_def
  fieldsWithoutMultiFields_def hasKeys_def replaceAliasPathByAliasId_def aliasStep_def
  normalizedFieldOf_def FieldMeta.extend_def NormalizedField.fields_def setSourcePath_def
  deNormalize_def
  replaceAliasIdByAliasPath_def fieldOfSource_def idOf_def fieldAt_def

subsection \<open>Alias resolution on the example\<close>

text \<open>
  C3. For \<open>{target: {type: keyword}, link: {type: alias, path: 'target'}}\<close>, whatever id
  the run starts with: \<open>link\<close> is normalized first (its name sorts first) and \<open>target\<close>
  second; the entry of \<open>aliases\<close> for the id of \<open>target\<close> is the list holding the id of
  \<open>link\<close>; the \<open>source.path\<close> of \<open>link\<close> is the id of \<open>target\<close>; and \<open>deNormalize\<close>
  returns the mapping with the path of \<open>link\<close> equal to the string \<open>'target'\<close> again.
\<close>

theorem alias_example_resolved:
  "idOf [''link''] (normalize n (aliasExample :: 'v Fields)) = Some n
   \<and> idOf [''target''] (normalize n (aliasExample :: 'v Fields)) = Some (Suc n)
   \<and> map_of (aliases (normalize n (aliasExample :: 'v Fields))) (Suc n) = Some [n]
   \<and> map_option (\<lambda>f. spath (source f)) (map_of (byId (normalize n (aliasExample :: 'v Fields))) n)
       = Some (Some (PathId (Suc n)))
   \<and> deNormalize (Suc fuel) (normalize n (aliasExample :: 'v Fields))
       = Some (Inr [(''link'', Field None (Some ''alias'') (Some (PathString ''target'')) [] None None),
                    (''target'', Field None (Some ''keyword'') None [] None None)])"
  by (simp add: aliasExample_def normalize_eval)

subsection \<open>getTypeMetaFromSource\<close>

text \<open>
  C5, as stated, fails: a string that is neither a main type nor a sub-type is not
  rejected. With the sample tables, \<open>'foo'\<close> is in neither, and the result is the main
  type \<open>'other'\<close> with \<open>'foo'\<close> as sub-type.
\<close>

theorem getTypeMetaFromSource_unknown_counterexample:
  "\<not> sampleMainTypes ''foo'' \<and> sampleSubTypeMap ''foo'' = None
   \<and> getTypeMetaFromSource sampleMainTypes sampleSubTypeMap ''foo''
       = Inr (''other'', Some ''foo'')"
  by (simp add: getTypeMetaFromSource_def getMainTypeFromSubType_def sampleMainTypes_def
        sampleSubTypeMap_def)

text \<open>
  C5, amended. A main type is returned as \<open>{mainType}\<close>. A string that is not a main
  type is returned as \<open>{mainType, subType}\<close> with itself as sub-type; the main type is
  the one \<open>SUB_TYPE_MAP_TO_MAIN\<close> gives (when that is not the empty string), and
  \<open>'other'\<close> when the table has no entry for the string. No error is raised in these
  cases.
\<close>

theorem getTypeMetaFromSource_cases:
  "(mainTypes s \<longrightarrow> getTypeMetaFromSource mainTypes subTypeMap s = Inr (s, None))
   \<and> (\<not> mainTypes s \<and> subTypeMap s = Some m \<and> m \<noteq> []
        \<longrightarrow> getTypeMetaFromSource mainTypes subTypeMap s = Inr (m, Some s))
   \<and> (\<not> mainTypes s \<and> subTypeMap s = None
        \<longrightarrow> getTypeMetaFromSource mainTypes subTypeMap s = Inr (''other'', Some s))"
  by (simp add: getTypeMetaFromSource_def getMainTypeFromSubType_def)

theorem getTypeMetaFromSource_cases_witness:
  "sampleMainTypes ''text''
   \<and> getTypeMetaFromSource sampleMainTypes sampleSubTypeMap ''text'' = Inr (''text'', None)
   \<and> \<not> sampleMainTypes ''float'' \<and> sampleSubTypeMap ''float'' = Some ''numeric''
   \<and> getTypeMetaFromSource sampleMainTypes sampleSubTypeMap ''float''
       = Inr (''numeric'', Some ''float'')
   \<and> \<not> sampleMainTypes ''foo'' \<and> sampleSubTypeMap ''foo'' = None
   \<and> getTypeMetaFromSource sampleMainTypes sampleSubTypeMap ''foo''
       = Inr (''other'', Some ''foo'')"
  using getTypeMetaFromSource_cases[of sampleMainTypes "''text''" sampleSubTypeMap "''numeric''"]
        getTypeMetaFromSource_cases[of sampleMainTypes "''float''" sampleSubTypeMap "''numeric''"]
        getTypeMetaFromSource_cases[of sampleMainTypes "''foo''" sampleSubTypeMap "''numeric''"]
  by (simp add: sampleMainTypes_def sampleSubTypeMap_def)

subsection \<open>getFieldConfig\<close>

text \<open>
  C6, as stated, fails: without a sub-property name an unregistered parameter name
  raises nothing; the result is the empty configuration \<open>{}\<close>.
\<close>

theorem getFieldConfig_unregistered_counterexample:
  "sampleParametersDefinition ''no_such_param'' = None
   \<and> getFieldConfig sampleParametersDefinition ''no_such_param'' None = Inr []"
  by (simp add: getFieldConfig_def sampleParametersDefinition_def)

text \<open>
  C6, amended. With a sub-property name and a registered parameter: the result is the
  \<open>fieldConfig\<close> registered for that sub-property (\<open>{}\<close> when it has none), and when the
  parameter has no \<open>props\<close> or no such sub-property the error carrying both names is
  raised. Without a sub-property name nothing is raised: the result is the parameter's
  \<open>fieldConfig\<close>, and \<open>{}\<close> when the parameter has none or is not registered.
\<close>

theorem getFieldConfig_cases:
  "(parametersDefinition param = Some d \<and> props d = Some ps \<and> map_of ps prop = Some c
      \<longrightarrow> getFieldConfig parametersDefinition param (Some prop)
            = Inr (case c of None \<Rightarrow> [] | Some config \<Rightarrow> config))
   \<and> (parametersDefinition param = Some d
        \<and> (props d = None \<or> (props d = Some ps \<and> map_of ps prop = None))
      \<longrightarrow> getFieldConfig parametersDefinition param (Some prop)
            = Inl (Error (''No field config found for prop \"'' @ prop
                          @ ''\" on param \"'' @ param @ ''\" '')))
   \<and> (parametersDefinition param = Some d
      \<longrightarrow> getFieldConfig parametersDefinition param None
            = Inr (case fieldConfig d of None \<Rightarrow> [] | Some config \<Rightarrow> config))
   \<and> (parametersDefinition param = None
      \<longrightarrow> getFieldConfig parametersDefinition param None = Inr [])"
  by (auto simp: getFieldConfig_def)

theorem getFieldConfig_cases_witness:
  "getFieldConfig sampleParametersDefinition ''fielddata_frequency_filter''
       (Some ''min_segment_size'') = Inr [(''defaultValue'', ''50'')]
   \<and> getFieldConfig sampleParametersDefinition ''fielddata_frequency_filter'' (Some ''min'')
       = Inl (Error (''No field config found for prop \"min\"''
                     @ '' on param \"fielddata_frequency_filter\" ''))
   \<and> getFieldConfig sampleParametersDefinition ''boost'' (Some ''min'')
       = Inl (Error ''No field config found for prop \"min\" on param \"boost\" '')
   \<and> getFieldConfig sampleParametersDefinition ''boost'' None = Inr [(''defaultValue'', ''1.0'')]
   \<and> getFieldConfig sampleParametersDefinition ''no_such_param'' None = Inr []"
  using
    getFieldConfig_cases[of sampleParametersDefinition "''fielddata_frequency_filter''"
      "ParameterDefinition None
         (Some [(''min_segment_size'', Some [(''defaultValue'', ''50'')]), (''max'', None)])"
      "[(''min_segment_size'', Some [(''defaultValue'', ''50'')]), (''max'', None)]"
      "''min_segment_size''" "Some [(''defaultValue'', ''50'')]"]
    getFieldConfig_cases[of sampleParametersDefinition "''fielddata_frequency_filter''"
      "ParameterDefinition None
         (Some [(''min_segment_size'', Some [(''defaultValue'', ''50'')]), (''max'', None)])"
      "[(''min_segment_size'', Some [(''defaultValue'', ''50'')]), (''max'', None)]"
      "''min''" None]
    getFieldConfig_cases[of sampleParametersDefinition "''boost''"
      "ParameterDefinition (Some [(''defaultValue'', ''1.0'')]) None" "[]" "''min''" None]
    getFieldConfig_cases[of sampleParametersDefinition "''no_such_param''"
      "ParameterDefinition None None" "[]" "''min''" None]
  by (simp add: sampleParametersDefinition_def)

subsection \<open>Dangling child ids\<close>

lemma descendantAliasesOf_skips_dangling:
  "map_of (byId nfs) ident = None \<Longrightarrow>
   descendantAliasesOf fuel (ident # rest) nfs aliasesIds
     = descendantAliasesOf fuel rest nfs aliasesIds"
  by simp

text \<open>
  C7. On a field whose child id is not in \<open>byId\<close>, \<open>getAllDescendantAliases\<close> and
  \<open>getFieldAncestors\<close> return, and \<open>getAllChildFields\<close> does not: it fails with a
  \<open>TypeError\<close>, for every amount of fuel.
\<close>

theorem getAllChildFields_dangling_child:
  "getAllChildFields (Suc fuel) danglingParent (byId danglingFields) = Some (Inl TypeError)
   \<and> getAllDescendantAliases (Suc fuel) danglingParent danglingFields [] = Some []
   \<and> getFieldAncestors (Suc fuel) 0 (byId danglingFields) = Some (Inr [])"
  by (simp add: getAllChildFields_def getFieldAncestors_def parentOf_def danglingFields_def
        danglingParent_def)

subsection \<open>Unfolding and induction for normalizeFields\<close>

lemma normalizedFieldOf_sel [simp]:
  "id' (normalizedFieldOf meta ident parent depth isMulti paths propName field) = ident"
  "parentId (normalizedFieldOf meta ident parent depth isMulti paths propName field) = parent"
  "nestedDepth (normalizedFieldOf meta ident parent depth isMulti paths propName field) = depth"
  "isMultiField (normalizedFieldOf meta ident parent depth isMulti paths propName field) = isMulti"
  "path (normalizedFieldOf meta ident parent depth isMulti paths propName field) = paths @ [propName]"
  "source (normalizedFieldOf meta ident parent depth isMulti paths propName field)
     = \<lparr>name = (case fname field of None \<Rightarrow> propName | Some given \<Rightarrow> given),
        type = ftype field, spath = fpath field, params = fparams field\<rparr>"
  "childFieldsName (normalizedFieldOf meta ident parent depth isMulti paths propName field) = childFieldsName meta"
  "canHaveChildFields (normalizedFieldOf meta ident parent depth isMulti paths propName field) = canHaveChildFields meta"
  "hasChildFields (normalizedFieldOf meta ident parent depth isMulti paths propName field) = hasChildFields meta"
  "canHaveMultiFields (normalizedFieldOf meta ident parent depth isMulti paths propName field) = canHaveMultiFields meta"
  "hasMultiFields (normalizedFieldOf meta ident parent depth isMulti paths propName field) = hasMultiFields meta"
  "isExpanded (normalizedFieldOf meta ident parent depth isMulti paths propName field) = isExpanded meta"
  "childFields (normalizedFieldOf meta ident parent depth isMulti paths propName field) = childFields meta"
  by (simp_all add: normalizedFieldOf_def FieldMeta.defs NormalizedField.defs)

lemma getFieldMeta_has_can:
  "hasChildFields (getFieldMeta field isMulti) \<or> hasMultiFields (getFieldMeta field isMulti) \<Longrightarrow>
   canHaveChildFields (getFieldMeta field isMulti) \<or> canHaveMultiFields (getFieldMeta field isMulti)"
  by (auto simp: getFieldMeta_def Let_def split: if_splits)

lemma normalizeField_unfold:
  "normalizeField acc (propName, value) paths arr depth isMulti parent env =
     (if hasChildFields (getFieldMeta (inferType value) isMulti)
         \<or> hasMultiFields (getFieldMeta (inferType value) isMulti)
      then
        (case normalizeFields
                (the (childContainer (childFieldsName (getFieldMeta (inferType value) isMulti))
                        (inferType value)))
                acc (paths @ [propName]) [] (Suc depth)
                (canHaveMultiFields (getFieldMeta (inferType value) isMulti)) (Some (drawn env))
                (env\<lparr>drawn := Suc (drawn env), maxDepth := max (maxDepth env) (Suc depth)\<rparr>) of
           (acc', kids, env'') \<Rightarrow>
             (AList.update (drawn env)
                (normalizedFieldOf
                   ((getFieldMeta (inferType value) isMulti)\<lparr>childFields := Some kids\<rparr>)
                   (drawn env) parent depth isMulti paths propName (inferType value))
                acc',
              arr @ [drawn env], env''))
      else
        (AList.update (drawn env)
           (normalizedFieldOf (getFieldMeta (inferType value) isMulti)
              (drawn env) parent depth isMulti paths propName (inferType value))
           acc,
         arr @ [drawn env], env\<lparr>drawn := Suc (drawn env)\<rparr>))"
  using getFieldMeta_has_can[of "inferType value" isMulti]
  by (auto simp: normalizeField.simps Let_def split: prod.splits)

declare normalizeFields.simps [simp del] normalizeField.simps [simp del]

lemma normalize_induct [case_names fields nil cons field]:
  assumes "\<And>fs to paths arr depth isMulti parent env.
      Q (sort_key fst fs) to paths arr depth isMulti parent env \<Longrightarrow>
      P fs to paths arr depth isMulti parent env"
    and "\<And>acc paths arr depth isMulti parent env. Q [] acc paths arr depth isMulti parent env"
    and "\<And>entry rest acc paths arr depth isMulti parent env.
      R acc entry paths arr depth isMulti parent env \<Longrightarrow>
      (\<And>acc1 arr1 env1.
          normalizeField acc entry paths arr depth isMulti parent env = (acc1, arr1, env1) \<Longrightarrow>
          Q rest acc1 paths arr1 depth isMulti parent env1) \<Longrightarrow>
      Q (entry # rest) acc paths arr depth isMulti parent env"
    and "\<And>acc propName value paths arr depth isMulti parent env.
      (hasChildFields (getFieldMeta (inferType value) isMulti)
         \<or> hasMultiFields (getFieldMeta (inferType value) isMulti) \<Longrightarrow>
       P (the (childContainer (childFieldsName (getFieldMeta (inferType value) isMulti))
                 (inferType value)))
         acc (paths @ [propName]) [] (Suc depth)
         (canHaveMultiFields (getFieldMeta (inferType value) isMulti)) (Some (drawn env))
         (env\<lparr>drawn := Suc (drawn env), maxDepth := max (maxDepth env) (Suc depth)\<rparr>)) \<Longrightarrow>
      R acc (propName, value) paths arr depth isMulti parent env"
  shows "P fs to paths arr depth isMulti parent env"
    and "Q entries acc paths arr depth isMulti parent env"
    and "R acc entry paths arr depth isMulti parent env"
proof (induction fs to paths arr depth isMulti parent env
         and entries acc paths arr depth isMulti parent env
         and acc entry paths arr depth isMulti parent env
       rule: normalizeFields_reduceFields_normalizeField.induct)
  case (1 fs to paths arrayToKeepRef depth isMulti parent env)
  then show ?case by (rule assms(1))
next
  case (2 acc paths arrayToKeepRef depth isMulti parent env)
  show ?case by (rule assms(2))
next
  case (3 entry rest acc paths arrayToKeepRef depth isMulti parent env)
  show ?case
  proof (rule assms(3))
    show "R acc entry paths arrayToKeepRef depth isMulti parent env" by (rule 3(1))
  next
    fix acc1 arr1 env1
    assume "normalizeField acc entry paths arrayToKeepRef depth isMulti parent env = (acc1, arr1, env1)"
    then show "Q rest acc1 paths arr1 depth isMulti parent env1"
      using 3(2)[of acc1 "(arr1, env1)" arr1 env1] by simp
  qed
next
  case (4 acc propName "value" paths arrayToKeepRef depth isMulti parent env)
  show ?case
  proof (rule assms(4))
    assume has: "hasChildFields (getFieldMeta (inferType value) isMulti)
         \<or> hasMultiFields (getFieldMeta (inferType value) isMulti)"
    from getFieldMeta_has_can[OF has] have can:
      "canHaveChildFields (getFieldMeta (inferType value) isMulti)
         \<or> canHaveMultiFields (getFieldMeta (inferType value) isMulti)" .
    show "P (the (childContainer (childFieldsName (getFieldMeta (inferType value) isMulti))
                 (inferType value)))
         acc (paths @ [propName]) [] (Suc depth)
         (canHaveMultiFields (getFieldMeta (inferType value) isMulti)) (Some (drawn env))
         (env\<lparr>drawn := Suc (drawn env), maxDepth := max (maxDepth env) (Suc depth)\<rparr>)"
      using 4[OF refl refl refl refl refl has refl refl] can by simp
  qed
qed

subsection \<open>What a run of normalizeFields changes\<close>

text \<open>
  A run that starts with \<open>drawn env\<close> ids drawn and ends with \<open>drawn env'\<close> writes only
  keys in between: the other keys of the accumulator keep their values, the ids pushed
  to the array are in that range, distinct keys stay distinct, and every field is stored
  under its own id.
\<close>

definition frame ::
    "'v ById \<Rightarrow> fieldId list \<Rightarrow> normEnv \<Rightarrow> 'v ById \<Rightarrow> fieldId list \<Rightarrow> normEnv \<Rightarrow> bool" where
  "frame acc arr env acc' arr' env' =
     (drawn env \<le> drawn env' \<and> maxDepth env \<le> maxDepth env'
      \<and> fst ` set acc' \<subseteq> fst ` set acc \<union> {drawn env ..< drawn env'}
      \<and> (\<forall>k. k \<notin> {drawn env ..< drawn env'} \<longrightarrow> map_of acc' k = map_of acc k)
      \<and> (\<exists>ids. arr' = arr @ ids \<and> set ids \<subseteq> {drawn env ..< drawn env'})
      \<and> (distinct (map fst acc) \<longrightarrow> distinct (map fst acc'))
      \<and> ((\<forall>(k, f) \<in> set acc. id' f = k) \<longrightarrow> (\<forall>(k, f) \<in> set acc'. id' f = k)))"

lemma frame_refl: "frame acc arr env acc arr env"
  by (simp add: frame_def)

lemma frame_trans:
  assumes a: "frame acc arr env acc1 arr1 env1" and b: "frame acc1 arr1 env1 acc2 arr2 env2"
  shows "frame acc arr env acc2 arr2 env2"
proof -
  from a have a1: "drawn env \<le> drawn env1" and a2: "maxDepth env \<le> maxDepth env1"
    and a3: "fst ` set acc1 \<subseteq> fst ` set acc \<union> {drawn env ..< drawn env1}"
    and a4: "\<And>k. k \<notin> {drawn env ..< drawn env1} \<Longrightarrow> map_of acc1 k = map_of acc k"
    and a5: "\<exists>ids. arr1 = arr @ ids \<and> set ids \<subseteq> {drawn env ..< drawn env1}"
    and a6: "distinct (map fst acc) \<Longrightarrow> distinct (map fst acc1)"
    and a7: "(\<forall>(k, f) \<in> set acc. id' f = k) \<Longrightarrow> (\<forall>(k, f) \<in> set acc1. id' f = k)"
    by (simp_all add: frame_def)
  from b have b1: "drawn env1 \<le> drawn env2" and b2: "maxDepth env1 \<le> maxDepth env2"
    and b3: "fst ` set acc2 \<subseteq> fst ` set acc1 \<union> {drawn env1 ..< drawn env2}"
    and b4: "\<And>k. k \<notin> {drawn env1 ..< drawn env2} \<Longrightarrow> map_of acc2 k = map_of acc1 k"
    and b5: "\<exists>ids. arr2 = arr1 @ ids \<and> set ids \<subseteq> {drawn env1 ..< drawn env2}"
    and b6: "distinct (map fst acc1) \<Longrightarrow> distinct (map fst acc2)"
    and b7: "(\<forall>(k, f) \<in> set acc1. id' f = k) \<Longrightarrow> (\<forall>(k, f) \<in> set acc2. id' f = k)"
    by (simp_all add: frame_def)
  have c3: "fst ` set acc2 \<subseteq> fst ` set acc \<union> {drawn env ..< drawn env2}"
  proof
    fix k assume "k \<in> fst ` set acc2"
    with b3 have "k \<in> fst ` set acc1 \<or> k \<in> {drawn env1 ..< drawn env2}" by blast
    with a3 have "k \<in> fst ` set acc \<or> k \<in> {drawn env ..< drawn env1}
        \<or> k \<in> {drawn env1 ..< drawn env2}" by blast
    with a1 b1 show "k \<in> fst ` set acc \<union> {drawn env ..< drawn env2}" by auto
  qed
  have c4: "map_of acc2 k = map_of acc k" if "k \<notin> {drawn env ..< drawn env2}" for k
  proof -
    from that a1 b1 have "k \<notin> {drawn env ..< drawn env1}" "k \<notin> {drawn env1 ..< drawn env2}"
      by auto
    then show ?thesis using a4 b4 by simp
  qed
  have c5: "\<exists>ids. arr2 = arr @ ids \<and> set ids \<subseteq> {drawn env ..< drawn env2}"
  proof -
    from a5 obtain i1 where i1: "arr1 = arr @ i1" "set i1 \<subseteq> {drawn env ..< drawn env1}" by blast
    from b5 obtain i2 where i2: "arr2 = arr1 @ i2" "set i2 \<subseteq> {drawn env1 ..< drawn env2}" by blast
    have "set (i1 @ i2) \<subseteq> {drawn env ..< drawn env2}"
    proof
      fix k assume "k \<in> set (i1 @ i2)"
      then have "k \<in> set i1 \<or> k \<in> set i2" by simp
      with i1(2) i2(2) have "k \<in> {drawn env ..< drawn env1} \<or> k \<in> {drawn env1 ..< drawn env2}"
        by blast
      with a1 b1 show "k \<in> {drawn env ..< drawn env2}" by auto
    qed
    with i1(1) i2(1) show ?thesis by simp
  qed
  show ?thesis
    unfolding frame_def using a1 b1 a2 b2 c3 c4 c5 a6 b6 a7 b7
    by (intro conjI) (simp_all only: le_trans[OF a1 b1] le_trans[OF a2 b2], blast+)
qed


lemma set_update_subset: "set (AList.update k v al) \<subseteq> insert (k, v) (set al)"
  by (induction al) auto

lemma frame_store:
  assumes a: "frame acc [] env0 acc' kids env''"
    and d: "drawn env0 = Suc (drawn env)" and m: "maxDepth env \<le> maxDepth env0"
    and i: "id' nf = drawn env"
  shows "frame acc arr env (AList.update (drawn env) nf acc') (arr @ [drawn env]) env''"
proof -
  from a have a1: "drawn env0 \<le> drawn env''" and a2: "maxDepth env0 \<le> maxDepth env''"
    and a3: "fst ` set acc' \<subseteq> fst ` set acc \<union> {drawn env0 ..< drawn env''}"
    and a4: "\<And>k. k \<notin> {drawn env0 ..< drawn env''} \<Longrightarrow> map_of acc' k = map_of acc k"
    and a6: "distinct (map fst acc) \<Longrightarrow> distinct (map fst acc')"
    and a7: "(\<forall>(k, f) \<in> set acc. id' f = k) \<Longrightarrow> (\<forall>(k, f) \<in> set acc'. id' f = k)"
    by (simp_all add: frame_def)
  have c1: "drawn env \<le> drawn env''" using a1 d by simp
  have c2: "maxDepth env \<le> maxDepth env''" using a2 m by simp
  have c3: "fst ` set (AList.update (drawn env) nf acc')
              \<subseteq> fst ` set acc \<union> {drawn env ..< drawn env''}"
    using a3 a1 d by (auto simp: dom_update)
  have c4: "map_of (AList.update (drawn env) nf acc') k = map_of acc k"
    if "k \<notin> {drawn env ..< drawn env''}" for k
  proof -
    from that a1 d have "k \<noteq> drawn env" "k \<notin> {drawn env0 ..< drawn env''}" by auto
    then show ?thesis using a4 by (simp add: update_conv')
  qed
  have c5: "\<exists>ids. arr @ [drawn env] = arr @ ids \<and> set ids \<subseteq> {drawn env ..< drawn env''}"
    using a1 d by auto
  have c6: "distinct (map fst acc) \<Longrightarrow> distinct (map fst (AList.update (drawn env) nf acc'))"
    using a6 by (simp add: distinct_update)
  have c7: "\<forall>(k, f) \<in> set (AList.update (drawn env) nf acc'). id' f = k"
    if "\<forall>(k, f) \<in> set acc. id' f = k"
    using a7[OF that] i set_update_subset[of "drawn env" nf acc'] by auto
  show ?thesis
    unfolding frame_def using c1 c2 c3 c4 c5 c6 c7 by blast
qed

lemma normalize_frame:
  fixes fs :: "'v Fields" and entries :: "'v Fields" and entry :: "string \<times> 'v Field"
  shows
  "case normalizeFields fs to paths arr depth isMulti parent env of
     (acc', arr', env') \<Rightarrow> frame to arr env acc' arr' env'"
  "case reduceFields entries acc paths arr depth isMulti parent env of
     (acc', arr', env') \<Rightarrow> frame acc arr env acc' arr' env'"
  "case normalizeField acc entry paths arr depth isMulti parent env of
     (acc', arr', env') \<Rightarrow> frame acc arr env acc' arr' env' \<and> drawn env < drawn env'"
proof (induction fs to paths arr depth isMulti parent env
         and entries acc paths arr depth isMulti parent env
         and acc entry paths arr depth isMulti parent env
       rule: normalize_induct)
  case (fields fs to paths arr depth isMulti parent env)
  then show ?case by (simp add: normalizeFields.simps)
next
  case (nil acc paths arr depth isMulti parent env)
  show ?case by (simp add: frame_refl)
next
  case (cons entry rest acc paths arr depth isMulti parent env)
  then show ?case
    by (auto split: prod.splits intro: frame_trans)
next
  case (field acc propName "value" paths arr depth isMulti parent env)
  show ?case
  proof (cases "hasChildFields (getFieldMeta (inferType value) isMulti)
         \<or> hasMultiFields (getFieldMeta (inferType value) isMulti)")
    case True
    obtain acc' kids env'' where r: "normalizeFields
                (the (childContainer (childFieldsName (getFieldMeta (inferType value) isMulti))
                        (inferType value)))
                acc (paths @ [propName]) [] (Suc depth)
                (canHaveMultiFields (getFieldMeta (inferType value) isMulti)) (Some (drawn env))
                (env\<lparr>drawn := Suc (drawn env), maxDepth := max (maxDepth env) (Suc depth)\<rparr>)
         = (acc', kids, env'')"
      by (metis prod_cases3)
    with field[OF True] have f: "frame acc []
        (env\<lparr>drawn := Suc (drawn env), maxDepth := max (maxDepth env) (Suc depth)\<rparr>)
        acc' kids env''" by simp
    then have "Suc (drawn env) \<le> drawn env''" by (simp add: frame_def)
    moreover note frame_store[OF f, of env _ arr]
    ultimately show ?thesis
      using True r by (simp add: normalizeField_unfold)
  next
    case False
    have "frame acc arr env
            (AList.update (drawn env)
               (normalizedFieldOf (getFieldMeta (inferType value) isMulti)
                  (drawn env) parent depth isMulti paths propName (inferType value)) acc)
            (arr @ [drawn env]) (env\<lparr>drawn := Suc (drawn env)\<rparr>)"
      using frame_store[of acc "env\<lparr>drawn := Suc (drawn env)\<rparr>" acc "[]" "env\<lparr>drawn := Suc (drawn env)\<rparr>" env _ arr]
      by (simp add: frame_refl)
    with False show ?thesis
      by (simp add: normalizeField_unfold)
  qed
qed

lemma normalizeFields_frame:
  "normalizeFields fs to paths arr depth isMulti parent env = (acc', arr', env') \<Longrightarrow>
   frame to arr env acc' arr' env'"
proof -
  assume r: "normalizeFields fs to paths arr depth isMulti parent env = (acc', arr', env')"
  have "case normalizeFields fs to paths arr depth isMulti parent env of
     (acc', arr', env') \<Rightarrow> frame to arr env acc' arr' env'"
    by (rule normalize_frame(1))
  with r show ?thesis by simp
qed

lemma reduceFields_frame:
  "reduceFields entries acc paths arr depth isMulti parent env = (acc', arr', env') \<Longrightarrow>
   frame acc arr env acc' arr' env'"
proof -
  assume r: "reduceFields entries acc paths arr depth isMulti parent env = (acc', arr', env')"
  have "case reduceFields entries acc paths arr depth isMulti parent env of
     (acc', arr', env') \<Rightarrow> frame acc arr env acc' arr' env'"
    by (rule normalize_frame(2))
  with r show ?thesis by simp
qed

lemma normalizeField_frame:
  "normalizeField acc entry paths arr depth isMulti parent env = (acc', arr', env') \<Longrightarrow>
   frame acc arr env acc' arr' env' \<and> drawn env < drawn env'"
proof -
  assume r: "normalizeField acc entry paths arr depth isMulti parent env = (acc', arr', env')"
  have "case normalizeField acc entry paths arr depth isMulti parent env of
     (acc', arr', env') \<Rightarrow> frame acc arr env acc' arr' env' \<and> drawn env < drawn env'"
    by (rule normalize_frame(3))
  with r show ?thesis by simp
qed

lemma frame_map_of:
  "frame acc arr env acc' arr' env' \<Longrightarrow> k \<notin> {drawn env ..< drawn env'} \<Longrightarrow>
   map_of acc' k = map_of acc k"
  by (simp add: frame_def)

lemma frame_drawn: "frame acc arr env acc' arr' env' \<Longrightarrow> drawn env \<le> drawn env'"
  by (simp add: frame_def)

subsection \<open>The alias pass\<close>

lemma setSourcePath_sel [simp]:
  "id' (setSourcePath p f) = id' f"
  "parentId (setSourcePath p f) = parentId f"
  "nestedDepth (setSourcePath p f) = nestedDepth f"
  "isMultiField (setSourcePath p f) = isMultiField f"
  "path (setSourcePath p f) = path f"
  "childFieldsName (setSourcePath p f) = childFieldsName f"
  "canHaveChildFields (setSourcePath p f) = canHaveChildFields f"
  "hasChildFields (setSourcePath p f) = hasChildFields f"
  "canHaveMultiFields (setSourcePath p f) = canHaveMultiFields f"
  "hasMultiFields (setSourcePath p f) = hasMultiFields f"
  "isExpanded (setSourcePath p f) = isExpanded f"
  "childFields (setSourcePath p f) = childFields f"
  "name (source (setSourcePath p f)) = name (source f)"
  "type (source (setSourcePath p f)) = type (source f)"
  "params (source (setSourcePath p f)) = params (source f)"
  "spath (source (setSourcePath p f)) = Some p"
  by (simp_all add: setSourcePath_def)

lemma setSourcePath_twice [simp]: "setSourcePath p (setSourcePath q f) = setSourcePath p f"
  by (simp add: setSourcePath_def)


lemma map_fst_map_entry: "map fst (AList.map_entry k h al) = map fst al"
  by (induction al) auto

text \<open>The ids listed in \<open>aliases\<close>.\<close>

definition occ :: "(fieldId \<times> fieldId list) list \<Rightarrow> fieldId set" where
  "occ A = {i. \<exists>t ids. map_of A t = Some ids \<and> i \<in> set ids}"

definition aliasInv ::
    "'v ById \<Rightarrow> fieldId set \<Rightarrow> (fieldId \<times> fieldId list) list \<times> 'v ById \<Rightarrow> bool" where
  "aliasInv B D st =
     (case st of (A, U) \<Rightarrow>
        map fst U = map fst B
      \<and> (\<forall>k f. map_of B k = Some f \<longrightarrow>
            map_of U k = Some f
            \<or> (k \<in> occ A \<and> (\<exists>t. map_of U k = Some (setSourcePath (PathId t) f))))
      \<and> (\<forall>t ids i. (t, ids) \<in> set A \<and> i \<in> set ids \<longrightarrow>
            i \<in> D
            \<and> (\<exists>f g. map_of B i = Some f \<and> map_of B t = Some g
                 \<and> type (source f) = Some ''alias''
                 \<and> spath (source f) = Some (PathString (joinDot (path g)))
                 \<and> map_of U i = Some (setSourcePath (PathId t) f))))"

lemma aliasInv_init: "aliasInv B {} ([], B)"
  by (simp add: aliasInv_def)

lemma aliasInv_mono: "aliasInv B D st \<Longrightarrow> D \<subseteq> D' \<Longrightarrow> aliasInv B D' st"
  unfolding aliasInv_def by (cases st) (simp, blast)

lemma aliasStep_inv:
  assumes inv: "aliasInv B D (A, U)"
    and mem: "(i, f) \<in> set B" and new: "i \<notin> D"
    and dist: "distinct (map fst B)"
    and idkey: "\<forall>(k, f) \<in> set B. id' f = k"
  shows "aliasInv B (insert i D) (aliasStep (i, f) (A, U))"
proof -
  from inv have j1: "map fst U = map fst B"
    and j2: "\<And>k f. map_of B k = Some f \<Longrightarrow>
            map_of U k = Some f
            \<or> (k \<in> occ A \<and> (\<exists>t. map_of U k = Some (setSourcePath (PathId t) f)))"
    and j3: "\<And>t ids i. (t, ids) \<in> set A \<Longrightarrow> i \<in> set ids \<Longrightarrow>
            i \<in> D
            \<and> (\<exists>f g. map_of B i = Some f \<and> map_of B t = Some g
                 \<and> type (source f) = Some ''alias''
                 \<and> spath (source f) = Some (PathString (joinDot (path g)))
                 \<and> map_of U i = Some (setSourcePath (PathId t) f))"
    unfolding aliasInv_def by auto
  have unchanged: "aliasInv B (insert i D) (A, U)"
    using aliasInv_mono[OF inv] by blast
  show ?thesis
  proof (cases "type (source f) = Some ''alias''")
    case False
    then show ?thesis using unchanged by (simp add: aliasStep_def)
  next
    case isAlias: True
    show ?thesis
    proof (cases "List.find (\<lambda>g. Some (PathString (joinDot (path g))) = spath (source f))
                    (map snd U)")
      case None
      then show ?thesis using unchanged isAlias by (simp add: aliasStep_def)
    next
      case (Some tgt)
      then have tgt_in: "tgt \<in> set (map snd U)"
        and tgt_path: "Some (PathString (joinDot (path tgt))) = spath (source f)"
        by (auto simp: find_Some_iff)
      from tgt_in obtain k where k: "(k, tgt) \<in> set U" by auto
      from dist j1 have distU: "distinct (map fst U)" by simp
      with k have Uk: "map_of U k = Some tgt" by simp
      from k have "k \<in> set (map fst U)" by force
      with j1 have "k \<in> set (map fst B)" by simp
      then obtain f' where f'mem: "(k, f') \<in> set B" by auto
      with dist have Bk: "map_of B k = Some f'" by simp
      from j2[OF Bk] Uk have tgt_eq: "tgt = f' \<or> (\<exists>t. tgt = setSourcePath (PathId t) f')"
        by auto
      from f'mem idkey have "id' f' = k" by auto
      with tgt_eq have tid: "id' tgt = k" and tpath: "path tgt = path f'" by auto
      from mem dist have Bi: "map_of B i = Some f" by simp
      have i_notocc: "i \<notin> occ A"
      proof
        assume "i \<in> occ A"
        then obtain t ids where "map_of A t = Some ids" "i \<in> set ids" by (auto simp: occ_def)
        then have "(t, ids) \<in> set A" "i \<in> set ids" by (auto dest: map_of_SomeD)
        from j3[OF this] new show False by simp
      qed
      with j2[OF Bi] have Ui: "map_of U i = Some f" by auto
      define old where "old = (case map_of A k of None \<Rightarrow> [] | Some ids \<Rightarrow> ids)"
      define A' where "A' = AList.update k (old @ [i]) A"
      define U' where "U' = AList.map_entry i (setSourcePath (PathId k)) U"
      have step: "aliasStep (i, f) (A, U) = (A', U')"
        using isAlias Some tid by (simp add: aliasStep_def A'_def U'_def old_def)
      have U'map: "map_of U' x = (if x = i then Some (setSourcePath (PathId k) f) else map_of U x)"
        for x
        using Ui by (simp add: U'_def map_of_map_entry)
      have occ_mono: "occ A \<subseteq> occ A'"
      proof
        fix x assume "x \<in> occ A"
        then obtain t ids where t: "map_of A t = Some ids" "x \<in> set ids" by (auto simp: occ_def)
        show "x \<in> occ A'"
        proof (cases "t = k")
          case True
          with t have "old = ids" by (simp add: old_def)
          with t True have "map_of A' k = Some (old @ [i])" "x \<in> set (old @ [i])"
            by (simp_all add: A'_def update_conv')
          then show ?thesis unfolding occ_def by blast
        next
          case False
          with t have "map_of A' t = Some ids" by (simp add: A'_def update_conv')
          with t show ?thesis unfolding occ_def by blast
        qed
      qed
      have i_occ: "i \<in> occ A'"
      proof -
        have "map_of A' k = Some (old @ [i])" by (simp add: A'_def update_conv')
        then show ?thesis unfolding occ_def by force
      qed
      have n1: "map fst U' = map fst B" using j1 by (simp add: U'_def map_fst_map_entry)
      have n2: "map_of U' x = Some h
            \<or> (x \<in> occ A' \<and> (\<exists>t. map_of U' x = Some (setSourcePath (PathId t) h)))"
        if "map_of B x = Some h" for x h
      proof (cases "x = i")
        case True
        with that Bi have "h = f" by simp
        with True i_occ U'map[of i] show ?thesis by auto
      next
        case False
        with j2[OF that] occ_mono U'map[of x] show ?thesis by auto
      qed
      have old_ok: "x \<in> D
            \<and> (\<exists>f g. map_of B x = Some f \<and> map_of B k = Some g
                 \<and> type (source f) = Some ''alias''
                 \<and> spath (source f) = Some (PathString (joinDot (path g)))
                 \<and> map_of U x = Some (setSourcePath (PathId k) f))"
        if "x \<in> set old" for x
      proof (cases "map_of A k")
        case None
        with that show ?thesis by (simp add: old_def)
      next
        case (Some ids)
        with that have "(k, ids) \<in> set A" "x \<in> set ids"
          by (auto simp: old_def dest: map_of_SomeD)
        from j3[OF this] show ?thesis .
      qed
      have n3: "x \<in> insert i D
            \<and> (\<exists>f g. map_of B x = Some f \<and> map_of B t = Some g
                 \<and> type (source f) = Some ''alias''
                 \<and> spath (source f) = Some (PathString (joinDot (path g)))
                 \<and> map_of U' x = Some (setSourcePath (PathId t) f))"
        if "(t, ids) \<in> set A'" "x \<in> set ids" for t ids x
      proof -
        from that(1) have "(t, ids) = (k, old @ [i]) \<or> (t, ids) \<in> set A"
          using set_update_subset[of k "old @ [i]" A] by (auto simp: A'_def)
        moreover have "x = i \<or> x \<in> set old" if "ids = old @ [i]"
          using \<open>x \<in> set ids\<close> that by auto
        ultimately consider (new) "t = k" "ids = old @ [i]" "x = i"
          | (old) "t = k" "x \<in> set old" | (other) "(t, ids) \<in> set A"
          by blast
        then show ?thesis
        proof cases
          case new
          with Bi Bk isAlias tgt_path tpath U'map[of i] show ?thesis by auto
        next
          case old
          from old_ok[OF old(2)] new have "x \<noteq> i" by auto
          with old_ok[OF old(2)] old(1) U'map[of x] show ?thesis by auto
        next
          case other
          from j3[OF other that(2)] new have "x \<noteq> i" by auto
          with j3[OF other that(2)] U'map[of x] show ?thesis by auto
        qed
      qed
      show ?thesis
        unfolding step aliasInv_def using n1 n2 n3 by (simp, blast)
    qed
  qed
qed

lemma aliasFold_inv:
  assumes "aliasInv B (fst ` set pre) st" and "B = pre @ xs"
    and "distinct (map fst B)" and "\<forall>(k, f) \<in> set B. id' f = k"
  shows "aliasInv B (fst ` set B) (fold aliasStep xs st)"
  using assms
proof (induction xs arbitrary: pre st)
  case Nil
  then show ?case by simp
next
  case (Cons e xs)
  obtain i f where e: "e = (i, f)" by (cases e)
  obtain A U where st: "st = (A, U)" by (cases st)
  from Cons.prems e have mem: "(i, f) \<in> set B" and new: "i \<notin> fst ` set pre" by auto
  have "aliasInv B (insert i (fst ` set pre)) (aliasStep (i, f) (A, U))"
    using aliasStep_inv[OF _ mem new Cons.prems(3,4)] Cons.prems(1) st by simp
  then have "aliasInv B (fst ` set (pre @ [e])) (aliasStep e st)"
    using e st by simp
  from Cons.IH[OF this] Cons.prems show ?case by simp
qed

lemma replaceAliasPathByAliasId_inv:
  assumes "distinct (map fst B)" and "\<forall>(k, f) \<in> set B. id' f = k"
  shows "aliasInv B (fst ` set B) (replaceAliasPathByAliasId B)"
proof -
  have "aliasInv B (fst ` set []) ([], B)" by (simp add: aliasInv_init)
  from aliasFold_inv[OF this _ assms] show ?thesis
    by (simp add: replaceAliasPathByAliasId_def)
qed


subsection \<open>Restoring the alias paths\<close>

lemma alist_eqI:
  "map fst xs = map fst ys \<Longrightarrow> distinct (map fst xs) \<Longrightarrow>
   (\<And>k. k \<in> set (map fst xs) \<Longrightarrow> map_of xs k = map_of ys k) \<Longrightarrow> xs = ys"
proof (induction xs arbitrary: ys)
  case Nil
  then show ?case by simp
next
  case (Cons x xs)
  from Cons.prems(1) obtain y ys' where ys: "ys = y # ys'" by (cases ys) auto
  with Cons.prems(1) have k: "fst x = fst y" and keys: "map fst xs = map fst ys'" by auto
  from Cons.prems(3)[of "fst x"] ys k have "snd x = snd y" by simp
  with k have xy: "x = y" by (simp add: prod_eq_iff)
  have "map_of xs j = map_of ys' j" if "j \<in> set (map fst xs)" for j
  proof -
    from that Cons.prems(2) have "j \<noteq> fst x" by force
    with Cons.prems(3)[of j] that ys k show ?thesis by simp
  qed
  with Cons.IH[OF keys] Cons.prems(2) have "xs = ys'" by simp
  with xy ys show ?case by simp
qed








subsection \<open>Every stored field is built by normalizeField\<close>

lemma normalize_stored:
  fixes fs :: "'v Fields" and entries :: "'v Fields" and entry :: "string \<times> 'v Field"
  assumes G: "\<And>(value :: 'v Field) isMulti ident parent depth paths propName kids.
      (kids \<noteq> None) = (hasChildFields (getFieldMeta (inferType value) isMulti)
         \<or> hasMultiFields (getFieldMeta (inferType value) isMulti)) \<Longrightarrow>
      G (normalizedFieldOf ((getFieldMeta (inferType value) isMulti)\<lparr>childFields := kids\<rparr>)
           ident parent depth isMulti paths propName (inferType value))"
  shows
  "(\<forall>(k, f) \<in> set to. G f) \<Longrightarrow>
   (case normalizeFields fs to paths arr depth isMulti parent env of
      (acc', arr', env') \<Rightarrow> \<forall>(k, f) \<in> set acc'. G f)"
  "(\<forall>(k, f) \<in> set acc. G f) \<Longrightarrow>
   (case reduceFields entries acc paths arr depth isMulti parent env of
      (acc', arr', env') \<Rightarrow> \<forall>(k, f) \<in> set acc'. G f)"
  "(\<forall>(k, f) \<in> set acc. G f) \<Longrightarrow>
   (case normalizeField acc entry paths arr depth isMulti parent env of
      (acc', arr', env') \<Rightarrow> \<forall>(k, f) \<in> set acc'. G f)"
proof (induction fs to paths arr depth isMulti parent env
         and entries acc paths arr depth isMulti parent env
         and acc entry paths arr depth isMulti parent env
       rule: normalize_induct)
  case (fields fs to paths arr depth isMulti parent env)
  then show ?case by (simp add: normalizeFields.simps)
next
  case (nil acc paths arr depth isMulti parent env)
  then show ?case by simp
next
  case (cons entry rest acc paths arr depth isMulti parent env)
  obtain acc1 arr1 env1 where
    r: "normalizeField acc entry paths arr depth isMulti parent env = (acc1, arr1, env1)"
    by (metis prod_cases3)
  from cons(1)[OF cons(3)] r have "\<forall>(k, f) \<in> set acc1. G f" by simp
  from cons(2)[OF r this] r show ?case by simp
next
  case (field acc propName "value" paths arr depth isMulti parent env)
  let ?meta = "getFieldMeta (inferType value) isMulti"
  show ?case
  proof (cases "hasChildFields ?meta \<or> hasMultiFields ?meta")
    case True
    obtain acc' kids env'' where r: "normalizeFields
                (the (childContainer (childFieldsName ?meta) (inferType value)))
                acc (paths @ [propName]) [] (Suc depth) (canHaveMultiFields ?meta)
                (Some (drawn env))
                (env\<lparr>drawn := Suc (drawn env), maxDepth := max (maxDepth env) (Suc depth)\<rparr>)
         = (acc', kids, env'')"
      by (metis prod_cases3)
    from field(1)[OF True field(2)] r have a: "\<forall>(k, f) \<in> set acc'. G f" by simp
    have "G (normalizedFieldOf (?meta\<lparr>childFields := Some kids\<rparr>)
           (drawn env) parent depth isMulti paths propName (inferType value))"
      using True by (intro G) simp
    with a show ?thesis
      using True r set_update_subset[of "drawn env" _ acc']
      by (simp add: normalizeField_unfold) blast
  next
    case False
    have "?meta\<lparr>childFields := None\<rparr> = ?meta" by (simp add: getFieldMeta_def Let_def)
    with G[of None "value" isMulti "drawn env" parent depth paths propName] False
    have "G (normalizedFieldOf ?meta (drawn env) parent depth isMulti paths propName
               (inferType value))"
      by simp
    with field(2) show ?thesis
      using False set_update_subset[of "drawn env" _ acc]
      by (simp add: normalizeField_unfold) blast
  qed
qed

subsection \<open>Parents of the stored fields\<close>

text \<open>
  \<open>linked lo hi M parent depth isMulti\<close>: each field that \<open>M\<close> holds under a key from \<open>lo\<close>
  up to \<open>hi\<close> is either a field of the call with these arguments, or the child of a
  field \<open>M\<close> holds under a key in the same range, one level deeper than it.
\<close>

definition linked ::
    "nat \<Rightarrow> nat \<Rightarrow> (fieldId \<Rightarrow> 'v NormalizedField option) \<Rightarrow> fieldId option \<Rightarrow> nat \<Rightarrow> bool
      \<Rightarrow> bool" where
  "linked lo hi M parent depth isMulti =
     (\<forall>k f. lo \<le> k \<and> k < hi \<and> M k = Some f \<longrightarrow>
        (parentId f = parent \<and> nestedDepth f = depth \<and> isMultiField f = isMulti)
        \<or> (\<exists>p g. parentId f = Some p \<and> lo \<le> p \<and> p < hi \<and> M p = Some g
              \<and> nestedDepth f = Suc (nestedDepth g)
              \<and> isMultiField f = canHaveMultiFields g))"

lemma linked_cong:
  "linked lo hi M parent depth isMulti \<Longrightarrow> (\<And>k. lo \<le> k \<Longrightarrow> k < hi \<Longrightarrow> M' k = M k) \<Longrightarrow>
   linked lo hi M' parent depth isMulti"
  unfolding linked_def by (metis (no_types, lifting))

lemma linked_join:
  assumes "linked lo mid M parent depth isMulti" "linked mid hi M parent depth isMulti"
    and "lo \<le> mid" "mid \<le> hi"
  shows "linked lo hi M parent depth isMulti"
  unfolding linked_def
proof (intro allI impI)
  fix k f assume kf: "lo \<le> k \<and> k < hi \<and> M k = Some f"
  show "(parentId f = parent \<and> nestedDepth f = depth \<and> isMultiField f = isMulti)
        \<or> (\<exists>p g. parentId f = Some p \<and> lo \<le> p \<and> p < hi \<and> M p = Some g
              \<and> nestedDepth f = Suc (nestedDepth g)
              \<and> isMultiField f = canHaveMultiFields g)"
  proof (cases "k < mid")
    case True
    with kf assms(1) have "(parentId f = parent \<and> nestedDepth f = depth \<and> isMultiField f = isMulti)
        \<or> (\<exists>p g. parentId f = Some p \<and> lo \<le> p \<and> p < mid \<and> M p = Some g
              \<and> nestedDepth f = Suc (nestedDepth g)
              \<and> isMultiField f = canHaveMultiFields g)"
      unfolding linked_def by blast
    with assms(4) show ?thesis by (meson less_le_trans)
  next
    case False
    with kf assms(2) have "(parentId f = parent \<and> nestedDepth f = depth \<and> isMultiField f = isMulti)
        \<or> (\<exists>p g. parentId f = Some p \<and> mid \<le> p \<and> p < hi \<and> M p = Some g
              \<and> nestedDepth f = Suc (nestedDepth g)
              \<and> isMultiField f = canHaveMultiFields g)"
      unfolding linked_def by (simp add: not_less) blast
    with assms(3) show ?thesis by (meson le_trans)
  qed
qed

lemma linked_parent:
  assumes kids: "linked (Suc i) hi M (Some i) (Suc depth) (canHaveMultiFields g)"
    and g: "M i = Some g" "parentId g = parent" "nestedDepth g = depth" "isMultiField g = isMulti"
    and le: "Suc i \<le> hi"
  shows "linked i hi M parent depth isMulti"
  unfolding linked_def
proof (intro allI impI)
  fix k f assume kf: "i \<le> k \<and> k < hi \<and> M k = Some f"
  show "(parentId f = parent \<and> nestedDepth f = depth \<and> isMultiField f = isMulti)
        \<or> (\<exists>p g. parentId f = Some p \<and> i \<le> p \<and> p < hi \<and> M p = Some g
              \<and> nestedDepth f = Suc (nestedDepth g)
              \<and> isMultiField f = canHaveMultiFields g)"
  proof (cases "k = i")
    case True
    with kf g show ?thesis by simp
  next
    case False
    with kf have "Suc i \<le> k \<and> k < hi \<and> M k = Some f" by simp
    with kids have "(parentId f = Some i \<and> nestedDepth f = Suc depth
          \<and> isMultiField f = canHaveMultiFields g)
        \<or> (\<exists>p g. parentId f = Some p \<and> Suc i \<le> p \<and> p < hi \<and> M p = Some g
              \<and> nestedDepth f = Suc (nestedDepth g)
              \<and> isMultiField f = canHaveMultiFields g)"
      unfolding linked_def by blast
    then show ?thesis
    proof
      assume "parentId f = Some i \<and> nestedDepth f = Suc depth
          \<and> isMultiField f = canHaveMultiFields g"
      with g le show ?thesis by auto
    next
      assume "\<exists>p g. parentId f = Some p \<and> Suc i \<le> p \<and> p < hi \<and> M p = Some g
              \<and> nestedDepth f = Suc (nestedDepth g)
              \<and> isMultiField f = canHaveMultiFields g"
      then show ?thesis by (meson Suc_leD)
    qed
  qed
qed

lemma linked_empty: "linked lo lo M parent depth isMulti"
  by (auto simp: linked_def)

lemma normalize_links:
  fixes fs :: "'v Fields" and entries :: "'v Fields" and entry :: "string \<times> 'v Field"
  shows
  "case normalizeFields fs to paths arr depth isMulti parent env of
     (acc', arr', env') \<Rightarrow> linked (drawn env) (drawn env') (map_of acc') parent depth isMulti"
  "case reduceFields entries acc paths arr depth isMulti parent env of
     (acc', arr', env') \<Rightarrow> linked (drawn env) (drawn env') (map_of acc') parent depth isMulti"
  "case normalizeField acc entry paths arr depth isMulti parent env of
     (acc', arr', env') \<Rightarrow> linked (drawn env) (drawn env') (map_of acc') parent depth isMulti"
proof (induction fs to paths arr depth isMulti parent env
         and entries acc paths arr depth isMulti parent env
         and acc entry paths arr depth isMulti parent env
       rule: normalize_induct)
  case (fields fs to paths arr depth isMulti parent env)
  then show ?case by (simp add: normalizeFields.simps)
next
  case (nil acc paths arr depth isMulti parent env)
  then show ?case by (simp add: linked_empty)
next
  case (cons entry rest acc paths arr depth isMulti parent env)
  obtain acc1 arr1 env1 where
    r: "normalizeField acc entry paths arr depth isMulti parent env = (acc1, arr1, env1)"
    by (metis prod_cases3)
  obtain acc2 arr2 env2 where
    r2: "reduceFields rest acc1 paths arr1 depth isMulti parent env1 = (acc2, arr2, env2)"
    by (metis prod_cases3)
  from cons(1) r have l1: "linked (drawn env) (drawn env1) (map_of acc1) parent depth isMulti"
    by simp
  from cons(2)[OF r] r2 have l2: "linked (drawn env1) (drawn env2) (map_of acc2) parent depth isMulti"
    by simp
  from normalizeField_frame[OF r]
  have f1: "frame acc arr env acc1 arr1 env1" by simp
  from reduceFields_frame[OF r2]
  have f2: "frame acc1 arr1 env1 acc2 arr2 env2" by simp
  have "linked (drawn env) (drawn env1) (map_of acc2) parent depth isMulti"
    by (rule linked_cong[OF l1]) (simp add: frame_map_of[OF f2])
  from linked_join[OF this l2 frame_drawn[OF f1] frame_drawn[OF f2]] r r2
  show ?case by simp
next
  case (field acc propName "value" paths arr depth isMulti parent env)
  let ?meta = "getFieldMeta (inferType value) isMulti"
  show ?case
  proof (cases "hasChildFields ?meta \<or> hasMultiFields ?meta")
    case True
    let ?env0 = "env\<lparr>drawn := Suc (drawn env), maxDepth := max (maxDepth env) (Suc depth)\<rparr>"
    obtain acc' kids env'' where r: "normalizeFields
                (the (childContainer (childFieldsName ?meta) (inferType value)))
                acc (paths @ [propName]) [] (Suc depth) (canHaveMultiFields ?meta)
                (Some (drawn env)) ?env0 = (acc', kids, env'')"
      by (metis prod_cases3)
    let ?nf = "normalizedFieldOf (?meta\<lparr>childFields := Some kids\<rparr>)
           (drawn env) parent depth isMulti paths propName (inferType value)"
    from field[OF True] r
    have l: "linked (Suc (drawn env)) (drawn env'') (map_of acc') (Some (drawn env)) (Suc depth)
               (canHaveMultiFields ?meta)" by simp
    from normalizeFields_frame[OF r]
    have fr: "frame acc [] ?env0 acc' kids env''" by simp
    have "linked (Suc (drawn env)) (drawn env'') (map_of (AList.update (drawn env) ?nf acc'))
            (Some (drawn env)) (Suc depth) (canHaveMultiFields ?nf)"
      by (rule linked_cong[OF _]) (use l in \<open>simp_all add: update_conv'\<close>)
    then have "linked (drawn env) (drawn env'') (map_of (AList.update (drawn env) ?nf acc'))
            parent depth isMulti"
      by (rule linked_parent) (use frame_drawn[OF fr] in \<open>simp_all add: update_conv'\<close>)
    with True r show ?thesis by (simp add: normalizeField_unfold)
  next
    case False
    let ?nf = "normalizedFieldOf ?meta (drawn env) parent depth isMulti paths propName
                 (inferType value)"
    have "linked (drawn env) (Suc (drawn env)) (map_of (AList.update (drawn env) ?nf acc))
            parent depth isMulti"
      by (rule linked_parent[where g = ?nf]) (simp_all add: update_conv' linked_empty)
    with False show ?thesis by (simp add: normalizeField_unfold)
  qed
qed

subsection \<open>The two passes of normalize\<close>

lemma normalize_run:
  obtains B roots env A U where
    "normalizeFields m [] [] [] 0 False None \<lparr>drawn = n, maxDepth = 0\<rparr> = (B, roots, env)"
    "replaceAliasPathByAliasId B = (A, U)"
    "normalize n m = \<lparr>byId = U, rootLevelFields = roots, aliases = A,
                      maxNestedDepth = maxDepth env\<rparr>"
    "distinct (map fst B)" "\<forall>(k, f) \<in> set B. id' f = k"
    "fst ` set B \<subseteq> {n ..< drawn env}"
    "aliasInv B (fst ` set B) (A, U)"
proof -
  obtain B roots env where
    r: "normalizeFields m [] [] [] 0 False None \<lparr>drawn = n, maxDepth = 0\<rparr> = (B, roots, env)"
    by (metis prod_cases3)
  obtain A U where a: "replaceAliasPathByAliasId B = (A, U)" by (metis prod.exhaust)
  from normalizeFields_frame[OF r]
  have d: "distinct (map fst B)" and i: "\<forall>(k, f) \<in> set B. id' f = k"
    and k: "fst ` set B \<subseteq> {n ..< drawn env}"
    by (simp_all add: frame_def)
  from replaceAliasPathByAliasId_inv[OF d i] a
  have inv: "aliasInv B (fst ` set B) (A, U)" by simp
  have nm: "normalize n m = \<lparr>byId = U, rootLevelFields = roots, aliases = A,
                      maxNestedDepth = maxDepth env\<rparr>"
    using r a by (simp add: normalize_def)
  show thesis by (rule that[OF r a nm d i k inv])
qed

text \<open>A field of the result is a field of the first pass, but for its \<open>source.path\<close>.\<close>

lemma aliasInv_entry:
  assumes inv: "aliasInv B D (A, U)" and dist: "distinct (map fst B)"
    and mem: "(k, g) \<in> set U"
  obtains f where "(k, f) \<in> set B" "map_of B k = Some f" "map_of U k = Some g"
    "g = f \<or> (\<exists>t. g = setSourcePath (PathId t) f)"
proof -
  from inv have keys: "map fst U = map fst B" by (simp add: aliasInv_def)
  with dist have "distinct (map fst U)" by simp
  with mem have Uk: "map_of U k = Some g" by simp
  from mem have "k \<in> set (map fst U)" by force
  with keys have "k \<in> set (map fst B)" by simp
  then obtain f where f: "(k, f) \<in> set B" by auto
  with dist have Bk: "map_of B k = Some f" by simp
  with inv have "map_of U k = Some f
            \<or> (k \<in> occ A \<and> (\<exists>t. map_of U k = Some (setSourcePath (PathId t) f)))"
    unfolding aliasInv_def by simp
  with Uk have "g = f \<or> (\<exists>t. g = setSourcePath (PathId t) f)" by auto
  then show thesis by (rule that[OF f Bk Uk])
qed

lemma aliasInv_lookup:
  assumes inv: "aliasInv B D (A, U)" and Bk: "map_of B k = Some f"
  obtains g where "map_of U k = Some g" "g = f \<or> (\<exists>t. g = setSourcePath (PathId t) f)"
proof -
  from inv Bk have "map_of U k = Some f
            \<or> (k \<in> occ A \<and> (\<exists>t. map_of U k = Some (setSourcePath (PathId t) f)))"
    unfolding aliasInv_def by simp
  then show thesis using that by blast
qed

subsection \<open>Multi-fields\<close>

text \<open>
  C10. \<open>getFieldMeta\<close> of a multi-field returns the four flags false. In the result of
  \<open>normalize\<close> a field with \<open>isMultiField\<close> has no \<open>childFields\<close> and the four flags
  false, and it is the child of a field that is not itself a multi-field: multi-fields
  are one level deep.
\<close>

theorem multi_fields_are_leaves:
  "\<not> canHaveChildFields (getFieldMeta field True) \<and> \<not> hasChildFields (getFieldMeta field True)
   \<and> \<not> canHaveMultiFields (getFieldMeta field True) \<and> \<not> hasMultiFields (getFieldMeta field True)
   \<and> (\<forall>(k, f) \<in> set (byId (normalize n m)).
         isMultiField f \<longrightarrow>
           childFields f = None
           \<and> \<not> canHaveChildFields f \<and> \<not> hasChildFields f
           \<and> \<not> canHaveMultiFields f \<and> \<not> hasMultiFields f
           \<and> (\<exists>p g. parentId f = Some p \<and> map_of (byId (normalize n m)) p = Some g
                 \<and> \<not> isMultiField g))"
proof -
  let ?G = "\<lambda>f :: 'b NormalizedField. isMultiField f \<longrightarrow>
           childFields f = None
           \<and> \<not> canHaveChildFields f \<and> \<not> hasChildFields f
           \<and> \<not> canHaveMultiFields f \<and> \<not> hasMultiFields f"
  let ?H = "\<lambda>f :: 'b NormalizedField. canHaveMultiFields f \<longrightarrow> \<not> isMultiField f"
  obtain B roots env A U where
    r: "normalizeFields m [] [] [] 0 False None \<lparr>drawn = n, maxDepth = 0\<rparr> = (B, roots, env)"
    and nm: "normalize n m = \<lparr>byId = U, rootLevelFields = roots, aliases = A,
                      maxNestedDepth = maxDepth env\<rparr>"
    and dist: "distinct (map fst B)"
    and keys: "fst ` set B \<subseteq> {n ..< drawn env}"
    and inv: "aliasInv B (fst ` set B) (A, U)"
    by (rule normalize_run[of m n])
  have "case normalizeFields m [] [] [] 0 False None \<lparr>drawn = n, maxDepth = 0\<rparr> of
      (acc', arr', env') \<Rightarrow> \<forall>(k, f) \<in> set acc'. ?G f \<and> ?H f"
    by (rule normalize_stored(1)) (auto simp: getFieldMeta_def Let_def)
  with r have stored: "\<forall>(k, f) \<in> set B. ?G f \<and> ?H f" by simp
  have "case normalizeFields m [] [] [] 0 False None \<lparr>drawn = n, maxDepth = 0\<rparr> of
     (acc', arr', env') \<Rightarrow>
       linked (drawn \<lparr>drawn = n, maxDepth = 0\<rparr>) (drawn env') (map_of acc') None 0 False"
    by (rule normalize_links(1))
  with r have links: "linked n (drawn env) (map_of B) None 0 False" by simp
  have "childFields g = None
           \<and> \<not> canHaveChildFields g \<and> \<not> hasChildFields g
           \<and> \<not> canHaveMultiFields g \<and> \<not> hasMultiFields g
           \<and> (\<exists>p h. parentId g = Some p \<and> map_of U p = Some h \<and> \<not> isMultiField h)"
    if mem: "(k, g) \<in> set U" and multi: "isMultiField g" for k g
  proof -
    from aliasInv_entry[OF inv dist mem] obtain f where
      f: "(k, f) \<in> set B" "map_of B k = Some f" "g = f \<or> (\<exists>t. g = setSourcePath (PathId t) f)"
      by blast
    from f(3) multi have fm: "isMultiField f" by auto
    from f(1) stored fm have leaf: "childFields f = None
           \<and> \<not> canHaveChildFields f \<and> \<not> hasChildFields f
           \<and> \<not> canHaveMultiFields f \<and> \<not> hasMultiFields f" by auto
    from f(1) keys have "n \<le> k \<and> k < drawn env" by force
    with links f(2) fm obtain p h where
      p: "parentId f = Some p" "map_of B p = Some h" "canHaveMultiFields h"
      unfolding linked_def by blast
    from p(2) stored p(3) have "\<not> isMultiField h" by (auto dest: map_of_SomeD)
    moreover from aliasInv_lookup[OF inv p(2)] obtain h' where
      "map_of U p = Some h'" "h' = h \<or> (\<exists>t. h' = setSourcePath (PathId t) h)" by blast
    ultimately have "\<exists>p h. parentId f = Some p \<and> map_of U p = Some h \<and> \<not> isMultiField h"
      using p(1) by auto
    with leaf f(3) show ?thesis by auto
  qed
  then show ?thesis
    by (auto simp: nm getFieldMeta_def Let_def)
qed


theorem multi_fields_are_leaves_witness:
  "map_option isMultiField (fieldAt [''a'', ''b'', ''c'', ''raw'']
       (normalize 0 (depthExampleMulti :: unit Fields))) = Some True
   \<and> map_option childFields (fieldAt [''a'', ''b'', ''c'', ''raw'']
       (normalize 0 (depthExampleMulti :: unit Fields))) = Some None
   \<and> map_option parentId (fieldAt [''a'', ''b'', ''c'', ''raw'']
       (normalize 0 (depthExampleMulti :: unit Fields))) = Some (idOf [''a'', ''b'', ''c'']
       (normalize 0 (depthExampleMulti :: unit Fields)))
   \<and> map_option isMultiField (fieldAt [''a'', ''b'', ''c'']
       (normalize 0 (depthExampleMulti :: unit Fields))) = Some False"
  using multi_fields_are_leaves[of "Field None None None [] None None" 0
          "depthExampleMulti :: unit Fields"]
  by (simp add: depthExampleMulti_def normalize_eval)

subsection \<open>Nested depth\<close>

text \<open>
  C2, as stated, fails for multi-fields: the \<open>keyword\<close> multi-field under \<open>c\<close> has
  \<open>nestedDepth\<close> 3, one more than \<open>c\<close>, and \<open>maxNestedDepth\<close> is 3 with it.
\<close>

theorem multi_field_depth_counterexample:
  "map_option nestedDepth (fieldAt [''a'', ''b'', ''c'']
       (normalize 0 (depthExampleMulti :: unit Fields))) = Some 2
   \<and> map_option nestedDepth (fieldAt [''a'', ''b'', ''c'', ''raw'']
       (normalize 0 (depthExampleMulti :: unit Fields))) = Some 3
   \<and> map_option isMultiField (fieldAt [''a'', ''b'', ''c'', ''raw'']
       (normalize 0 (depthExampleMulti :: unit Fields))) = Some True
   \<and> maxNestedDepth (normalize 0 (depthExampleMulti :: unit Fields)) = 3"
  by (simp add: depthExampleMulti_def normalize_eval)

text \<open>
  C2, amended. In the result of \<open>normalize\<close> a field without parent has \<open>nestedDepth\<close> 0,
  and every other field has its parent in \<open>byId\<close> and \<open>nestedDepth\<close> one more than the
  parent's, in an object or nested container as well as in a multi-field container
  (\<open>isMultiField\<close> of the child is \<open>canHaveMultiFields\<close> of the parent). In the example
  \<open>maxNestedDepth\<close> is 2 and \<open>c\<close> has \<open>nestedDepth\<close> 2; a multi-field under \<open>c\<close> has
  \<open>nestedDepth\<close> 3.
\<close>

theorem children_are_one_level_deeper:
  "(\<forall>(k, f) \<in> set (byId (normalize n (m :: 'v Fields))).
      case parentId f of
        None \<Rightarrow> nestedDepth f = 0 \<and> \<not> isMultiField f
      | Some p \<Rightarrow>
          (\<exists>g. map_of (byId (normalize n m)) p = Some g
             \<and> nestedDepth f = Suc (nestedDepth g)
             \<and> isMultiField f = canHaveMultiFields g))
   \<and> maxNestedDepth (normalize n (depthExample :: 'v Fields)) = 2
   \<and> map_option nestedDepth (fieldAt [''a'', ''b'', ''c'']
        (normalize n (depthExample :: 'v Fields))) = Some 2
   \<and> map_option nestedDepth (fieldAt [''a'', ''b'', ''c'', ''raw'']
        (normalize n (depthExampleMulti :: 'v Fields))) = Some 3"
proof -
  obtain B roots env A U where
    r: "normalizeFields m [] [] [] 0 False None \<lparr>drawn = n, maxDepth = 0\<rparr> = (B, roots, env)"
    and nm: "normalize n m = \<lparr>byId = U, rootLevelFields = roots, aliases = A,
                      maxNestedDepth = maxDepth env\<rparr>"
    and dist: "distinct (map fst B)"
    and keys: "fst ` set B \<subseteq> {n ..< drawn env}"
    and inv: "aliasInv B (fst ` set B) (A, U)"
    by (rule normalize_run[of m n])
  have "case normalizeFields m [] [] [] 0 False None \<lparr>drawn = n, maxDepth = 0\<rparr> of
     (acc', arr', env') \<Rightarrow>
       linked (drawn \<lparr>drawn = n, maxDepth = 0\<rparr>) (drawn env') (map_of acc') None 0 False"
    by (rule normalize_links(1))
  with r have links: "linked n (drawn env) (map_of B) None 0 False" by simp
  have "case parentId g of
        None \<Rightarrow> nestedDepth g = 0 \<and> \<not> isMultiField g
      | Some p \<Rightarrow>
          (\<exists>h. map_of U p = Some h \<and> nestedDepth g = Suc (nestedDepth h)
             \<and> isMultiField g = canHaveMultiFields h)"
    if mem: "(k, g) \<in> set U" for k g
  proof -
    from aliasInv_entry[OF inv dist mem] obtain f where
      f: "(k, f) \<in> set B" "map_of B k = Some f" "g = f \<or> (\<exists>t. g = setSourcePath (PathId t) f)"
      by blast
    from f(1) keys have "n \<le> k \<and> k < drawn env" by force
    with links f(2) have "(parentId f = None \<and> nestedDepth f = 0 \<and> isMultiField f = False)
        \<or> (\<exists>p h. parentId f = Some p \<and> map_of B p = Some h
              \<and> nestedDepth f = Suc (nestedDepth h)
              \<and> isMultiField f = canHaveMultiFields h)"
      unfolding linked_def by blast
    then show ?thesis
    proof
      assume "parentId f = None \<and> nestedDepth f = 0 \<and> isMultiField f = False"
      with f(3) show ?thesis by auto
    next
      assume "\<exists>p h. parentId f = Some p \<and> map_of B p = Some h
              \<and> nestedDepth f = Suc (nestedDepth h)
              \<and> isMultiField f = canHaveMultiFields h"
      then obtain p h where p: "parentId f = Some p" "map_of B p = Some h"
        "nestedDepth f = Suc (nestedDepth h)" "isMultiField f = canHaveMultiFields h" by blast
      from aliasInv_lookup[OF inv p(2)] obtain h' where
        "map_of U p = Some h'" "h' = h \<or> (\<exists>t. h' = setSourcePath (PathId t) h)" by blast
      with p f(3) show ?thesis by auto
    qed
  qed
  moreover have byU: "byId (normalize n m) = U" by (simp add: nm)
  ultimately have general: "\<forall>(k, f) \<in> set (byId (normalize n m)).
      case parentId f of
        None \<Rightarrow> nestedDepth f = 0 \<and> \<not> isMultiField f
      | Some p \<Rightarrow>
          (\<exists>g. map_of (byId (normalize n m)) p = Some g
             \<and> nestedDepth f = Suc (nestedDepth g)
             \<and> isMultiField f = canHaveMultiFields g)"
    unfolding byU by blast
  have "maxNestedDepth (normalize n (depthExample :: 'v Fields)) = 2"
    "map_option nestedDepth (fieldAt [''a'', ''b'', ''c'']
        (normalize n (depthExample :: 'v Fields))) = Some 2"
    by (simp_all add: depthExample_def normalize_eval)
  moreover have "map_option nestedDepth (fieldAt [''a'', ''b'', ''c'', ''raw'']
        (normalize n (depthExampleMulti :: 'v Fields))) = Some 3"
    by (simp add: depthExampleMulti_def normalize_eval)
  ultimately show ?thesis using general by blast
qed

theorem children_are_one_level_deeper_witness:
  "map_option parentId (fieldAt [''a'', ''b'', ''c'', ''raw'']
       (normalize 0 (depthExampleMulti :: unit Fields)))
     = Some (idOf [''a'', ''b'', ''c''] (normalize 0 (depthExampleMulti :: unit Fields)))
   \<and> map_option nestedDepth (fieldAt [''a'', ''b'', ''c'', ''raw'']
       (normalize 0 (depthExampleMulti :: unit Fields)))
     = map_option (\<lambda>f. Suc (nestedDepth f)) (fieldAt [''a'', ''b'', ''c'']
       (normalize 0 (depthExampleMulti :: unit Fields)))
   \<and> map_option parentId (fieldAt [''a''] (normalize 0 (depthExampleMulti :: unit Fields)))
     = Some None
   \<and> map_option nestedDepth (fieldAt [''a''] (normalize 0 (depthExampleMulti :: unit Fields)))
     = Some 0"
  using children_are_one_level_deeper[of 0 "depthExampleMulti :: unit Fields"]
  by (simp add: depthExampleMulti_def normalize_eval)

subsection \<open>Unresolved aliases\<close>

text \<open>
  C4. \<open>normalize\<close> is a total function: nothing in it raises. Let \<open>B\<close> be the fields as
  \<open>normalizeFields\<close> stores them, their \<open>source\<close> being the declared field. An alias field
  of \<open>B\<close> whose \<open>source.path\<close> is the joined path of no field of \<open>B\<close> is in the result
  unchanged, \<open>source.path\<close> included, and no list of \<open>aliases\<close> holds its id.
\<close>

theorem unresolved_alias_is_kept:
  assumes "normalizeFields m [] [] [] 0 False None \<lparr>drawn = n, maxDepth = 0\<rparr> = (B, roots, env)"
    and "(i, f) \<in> set B" and "type (source f) = Some ''alias''"
    and "\<forall>g \<in> snd ` set B. Some (PathString (joinDot (path g))) \<noteq> spath (source f)"
  shows "map_of (byId (normalize n m)) i = Some f
         \<and> (\<forall>(t, ids) \<in> set (aliases (normalize n m)). i \<notin> set ids)"
proof -
  obtain B' roots' env' A U where
    r: "normalizeFields m [] [] [] 0 False None \<lparr>drawn = n, maxDepth = 0\<rparr> = (B', roots', env')"
    and nm: "normalize n m = \<lparr>byId = U, rootLevelFields = roots', aliases = A,
                      maxNestedDepth = maxDepth env'\<rparr>"
    and dist: "distinct (map fst B')"
    and inv: "aliasInv B' (fst ` set B') (A, U)"
    by (rule normalize_run[of m n])
  from r assms(1) have B': "B' = B" by simp
  from assms(2) dist B' have Bi: "map_of B i = Some f" by simp
  have notin: "i \<notin> set ids" if "(t, ids) \<in> set A" for t ids
  proof
    assume "i \<in> set ids"
    with inv that B' obtain f' g where
      "map_of B i = Some f'" "map_of B t = Some g"
      "spath (source f') = Some (PathString (joinDot (path g)))"
      unfolding aliasInv_def by (simp, blast)
    with Bi have "g \<in> snd ` set B" "Some (PathString (joinDot (path g))) = spath (source f)"
      by (auto dest: map_of_SomeD intro: rev_image_eqI)
    with assms(4) show False by blast
  qed
  then have "i \<notin> occ A" unfolding occ_def by (auto dest: map_of_SomeD)
  with inv Bi B' have "map_of U i = Some f" unfolding aliasInv_def by auto
  with notin show ?thesis by (auto simp: nm)
qed

theorem unresolved_alias_is_kept_witness:
  "map_option (\<lambda>f. spath (source f))
       (map_of (byId (normalize 0 (unresolvedExample :: unit Fields))) 0)
     = Some (Some (PathString ''missing''))
   \<and> aliases (normalize 0 (unresolvedExample :: unit Fields)) = []"
  using unresolved_alias_is_kept[of "unresolvedExample :: unit Fields" 0
      "[(0, normalizedFieldOf (getFieldMeta (Field None (Some ''alias'') (Some (PathString ''missing''))
                [] None None) False) 0 None 0 False [] ''link''
             (Field None (Some ''alias'') (Some (PathString ''missing'')) [] None None))]"
      "[0]" "\<lparr>drawn = 1, maxDepth = 0\<rparr>" 0
      "normalizedFieldOf (getFieldMeta (Field None (Some ''alias'') (Some (PathString ''missing''))
                [] None None) False) 0 None 0 False [] ''link''
             (Field None (Some ''alias'') (Some (PathString ''missing'')) [] None None)"]
  by (simp add: unresolvedExample_def normalize_eval)

subsection \<open>Renaming a field\<close>

text \<open>The writes of \<open>updateFieldPath\<close>: each field with its new path, in the order written.\<close>

definition writePaths ::
    "('v NormalizedField \<times> string list) list \<Rightarrow> 'v ById \<Rightarrow> 'v ById" where
  "writePaths ws updatedById =
     fold (\<lambda>(d, p) u. AList.update (id' d) (d\<lparr>path := p\<rparr>) u) ws updatedById"

lemma writePaths_append:
  "writePaths (ws @ ws') u = writePaths ws' (writePaths ws u)"
  by (simp add: writePaths_def)

lemma writePaths_other:
  "k \<notin> id' ` fst ` set ws \<Longrightarrow> map_of (writePaths ws u) k = map_of u k"
  unfolding writePaths_def
  by (induction ws arbitrary: u) (auto simp: update_conv')

lemma writePaths_written:
  "k \<in> id' ` fst ` set ws \<Longrightarrow>
   \<exists>(d, p) \<in> set ws. id' d = k \<and> map_of (writePaths ws u) k = Some (d\<lparr>path := p\<rparr>)"
proof (induction ws arbitrary: u rule: rev_induct)
  case Nil
  then show ?case by simp
next
  case (snoc w ws)
  obtain d p where w: "w = (d, p)" by (cases w)
  show ?case
  proof (cases "id' d = k")
    case True
    then show ?thesis
      by (auto simp: w writePaths_append writePaths_def update_conv')
  next
    case False
    with snoc.prems w have "k \<in> id' ` fst ` set ws" by auto
    from snoc.IH[OF this, of u] False show ?thesis
      by (auto simp: w writePaths_append writePaths_def[of "[(d, p)]"] update_conv')
  qed
qed

lemma path_with_name: "(if ps = [] then [x] else ps @ [x]) = ps @ [x]"
  by simp

lemma update_paths_follow_children:
  fixes fieldsById :: "'v ById"
  shows
  "getChildFields fuel fieldsById field to = Some (Inr to') \<Longrightarrow>
   \<exists>ds ps. to' = to @ ds \<and> length ps = length ds
     \<and> updateFieldPath fuel fieldsById field paths updatedById
         = Some (Inr (writePaths ((field, paths @ [name (source field)]) # zip ds ps)
                        updatedById))
     \<and> (\<forall>(d, p) \<in> set (zip ds ps).
           \<exists>mid. p = paths @ [name (source field)] @ mid @ [name (source d)])"
  "eachChildField fuel fieldsById children to = Some (Inr to') \<Longrightarrow>
   \<exists>ds ps. to' = to @ ds \<and> length ps = length ds
     \<and> updateChildPaths fuel fieldsById children paths updatedById
         = Some (Inr (writePaths (zip ds ps) updatedById))
     \<and> (\<forall>(d, p) \<in> set (zip ds ps). \<exists>mid. p = paths @ mid @ [name (source d)])"
proof (induction fuel fieldsById field to and fuel fieldsById children to
       arbitrary: to' paths updatedById and to' paths updatedById
       rule: getChildFields_eachChildField.induct)
  case (1 fieldsById field to)
  then show ?case by simp
next
  case (2 fuel fieldsById field to)
  show ?case
  proof (cases "hasChildFields field \<or> hasMultiFields field")
    case False
    with 2(2) have "to' = to" by simp
    with False show ?thesis
      by (intro exI[of _ "[]"]) (simp add: writePaths_def Let_def path_with_name)
  next
    case True
    with 2(2) obtain kids where kids: "childFields field = Some kids"
      and e: "eachChildField fuel fieldsById (map (map_of fieldsById) kids) to = Some (Inr to')"
      by (auto split: option.splits)
    let ?u1 = "AList.update (id' field) (field\<lparr>path := paths @ [name (source field)]\<rparr>)
                 updatedById"
    from 2(1)[OF True kids e, of "paths @ [name (source field)]" ?u1]
    obtain ds ps where r: "to' = to @ ds" "length ps = length ds"
      "updateChildPaths fuel fieldsById (map (map_of fieldsById) kids)
         (paths @ [name (source field)]) ?u1 = Some (Inr (writePaths (zip ds ps) ?u1))"
      "\<forall>(d, p) \<in> set (zip ds ps).
          \<exists>mid. p = (paths @ [name (source field)]) @ mid @ [name (source d)]"
      by blast
    have "updateFieldPath (Suc fuel) fieldsById field paths updatedById
            = Some (Inr (writePaths ((field, paths @ [name (source field)]) # zip ds ps)
                           updatedById))"
      using True kids r(3) by (simp add: Let_def writePaths_def path_with_name)
    with r(1,2,4) show ?thesis by (intro exI[of _ ds] exI[of _ ps]) simp
  qed
next
  case (3 fuel fieldsById to)
  then show ?case by (intro exI[of _ "[]"]) (simp add: writePaths_def)
next
  case (4 fuel fieldsById child rest to)
  from 4(3) obtain childField where c: "child = Some childField"
    by (auto split: option.splits)
  with 4(3) obtain to1 where
    g: "getChildFields fuel fieldsById childField (to @ [childField]) = Some (Inr to1)"
    and e: "eachChildField fuel fieldsById rest to1 = Some (Inr to')"
    by (auto split: option.splits sum.splits)
  from 4(1)[OF c g, of paths updatedById]
  obtain ds1 ps1 where r1: "to1 = (to @ [childField]) @ ds1" "length ps1 = length ds1"
    "updateFieldPath fuel fieldsById childField paths updatedById
       = Some (Inr (writePaths ((childField, paths @ [name (source childField)]) # zip ds1 ps1)
                      updatedById))"
    "\<forall>(d, p) \<in> set (zip ds1 ps1).
        \<exists>mid. p = paths @ [name (source childField)] @ mid @ [name (source d)]"
    by blast
  let ?u1 = "writePaths ((childField, paths @ [name (source childField)]) # zip ds1 ps1)
               updatedById"
  from 4(2)[OF c g _ e, of paths ?u1]
  obtain ds2 ps2 where r2: "to' = to1 @ ds2" "length ps2 = length ds2"
    "updateChildPaths fuel fieldsById rest paths ?u1 = Some (Inr (writePaths (zip ds2 ps2) ?u1))"
    "\<forall>(d, p) \<in> set (zip ds2 ps2). \<exists>mid. p = paths @ mid @ [name (source d)]"
    by blast
  let ?ds = "childField # ds1 @ ds2"
  let ?ps = "(paths @ [name (source childField)]) # ps1 @ ps2"
  have z: "zip ?ds ?ps
      = (childField, paths @ [name (source childField)]) # zip ds1 ps1 @ zip ds2 ps2"
    using r1(2) by simp
  have "updateChildPaths fuel fieldsById (child # rest) paths updatedById
          = Some (Inr (writePaths (zip ?ds ?ps) updatedById))"
  proof -
    have "writePaths ((childField, paths @ [name (source childField)])
                        # zip ds1 ps1 @ zip ds2 ps2) updatedById
          = writePaths (zip ds2 ps2) ?u1"
      using writePaths_append[of "(childField, paths @ [name (source childField)]) # zip ds1 ps1"
              "zip ds2 ps2" updatedById]
      by simp
    with c r1(3) r2(3) show ?thesis unfolding z by simp
  qed
  moreover have "\<forall>(d, p) \<in> set (zip ?ds ?ps). \<exists>mid. p = paths @ mid @ [name (source d)]"
    unfolding z
  proof (intro ballI, clarify)
    fix d p assume "(d, p) \<in> set ((childField, paths @ [name (source childField)])
                       # zip ds1 ps1 @ zip ds2 ps2)"
    then consider "d = childField" "p = paths @ [name (source childField)]"
      | "(d, p) \<in> set (zip ds1 ps1)" | "(d, p) \<in> set (zip ds2 ps2)" by auto
    then show "\<exists>mid. p = paths @ mid @ [name (source d)]"
    proof cases
      case 1
      then show ?thesis by (intro exI[of _ "[]"]) simp
    next
      case 2
      with r1(4) obtain mid where "p = paths @ [name (source childField)] @ mid @ [name (source d)]"
        by blast
      then show ?thesis by (intro exI[of _ "name (source childField) # mid"]) simp
    next
      case 3
      with r2(4) show ?thesis by blast
    qed
  qed
  ultimately show ?case
    using r1(1,2) r2(1,2) by (intro exI[of _ ?ds] exI[of _ ?ps]) simp
qed


text \<open>
  On a map that holds the renamed field's parent and every field reached through
  \<open>childFields\<close>, the rename does what is expected of it. Let \<open>ds\<close> be the descendants of
  \<open>field\<close> as \<open>getAllChildFields\<close> collects them, each stored under its own id, none
  under the id of \<open>field\<close>, and let the parent of \<open>field\<close>, if it has one, be in \<open>byId\<close>
  with path \<open>parentPath\<close>. Then \<open>updateFieldsPathAfterFieldNameChange\<close> returns; the new
  path of \<open>field\<close> is the parent's path and its name; the map returned holds \<open>field\<close>
  with that path, every descendant with a path that starts with the new path of
  \<open>field\<close> and ends with the descendant's name, nothing else of these fields being
  changed; and the lookup of every other key is as in \<open>byId\<close>.
\<close>

lemma rename_updates_descendant_paths:
  assumes desc: "getAllChildFields fuel field fieldsById = Some (Inr ds)"
    and own: "\<forall>d \<in> set ds. map_of fieldsById (id' d) = Some d"
    and notself: "id' field \<notin> id' ` set ds"
    and parent: "case parentId field of
                   None \<Rightarrow> parentPath = []
                 | Some p \<Rightarrow> map_option path (map_of fieldsById p) = Some parentPath"
  shows "\<exists>updatedById.
           updateFieldsPathAfterFieldNameChange fuel field fieldsById
             = Some (Inr (parentPath @ [name (source field)], updatedById))
           \<and> map_of updatedById (id' field)
               = Some (field\<lparr>path := parentPath @ [name (source field)]\<rparr>)
           \<and> (\<forall>d \<in> set ds. \<exists>mid.
                 map_of updatedById (id' d)
                   = Some (d\<lparr>path := parentPath @ [name (source field)] @ mid
                                       @ [name (source d)]\<rparr>))
           \<and> (\<forall>k. k \<noteq> id' field \<and> k \<notin> id' ` set ds
                 \<longrightarrow> map_of updatedById k = map_of fieldsById k)"
proof -
  let ?new = "parentPath @ [name (source field)]"
  from desc have "getChildFields fuel fieldsById field [] = Some (Inr ds)"
    by (simp add: getAllChildFields_def)
  from update_paths_follow_children(1)[OF this, of parentPath fieldsById]
  obtain ps where ps: "length ps = length ds"
    and upd: "updateFieldPath fuel fieldsById field parentPath fieldsById
         = Some (Inr (writePaths ((field, ?new) # zip ds ps) fieldsById))"
    and pre: "\<forall>(d, p) \<in> set (zip ds ps).
           \<exists>mid. p = parentPath @ [name (source field)] @ mid @ [name (source d)]"
    by auto
  let ?ws = "(field, ?new) # zip ds ps"
  let ?u = "writePaths ?ws fieldsById"
  from ps have fsts: "fst ` set (zip ds ps) = set ds"
    by (metis map_fst_zip set_map)
  then have written: "id' ` fst ` set ?ws = insert (id' field) (id' ` set ds)" by simp
  have a: "map_of ?u (id' field) = Some (field\<lparr>path := ?new\<rparr>)"
  proof -
    have "id' field \<in> id' ` fst ` set ?ws" by simp
    from writePaths_written[OF this, of fieldsById]
    obtain d p where dp: "(d, p) \<in> set ?ws" "id' d = id' field"
      "map_of ?u (id' field) = Some (d\<lparr>path := p\<rparr>)" by blast
    from dp(1) have "(d = field \<and> p = ?new) \<or> (d, p) \<in> set (zip ds ps)" by auto
    moreover have "(d, p) \<notin> set (zip ds ps)"
    proof
      assume "(d, p) \<in> set (zip ds ps)"
      then have "d \<in> set ds" by (auto dest: set_zip_leftD)
      with dp(2) notself show False by (metis imageI)
    qed
    ultimately show ?thesis using dp(3) by simp
  qed
  have b: "\<exists>mid. map_of ?u (id' d)
              = Some (d\<lparr>path := parentPath @ [name (source field)] @ mid @ [name (source d)]\<rparr>)"
    if d: "d \<in> set ds" for d
  proof -
    from d written have "id' d \<in> id' ` fst ` set ?ws" by simp
    from writePaths_written[OF this, of fieldsById]
    obtain d' p where dp: "(d', p) \<in> set ?ws" "id' d' = id' d"
      "map_of ?u (id' d) = Some (d'\<lparr>path := p\<rparr>)" by blast
    from dp(2) d notself have "d' \<noteq> field" by (metis imageI)
    with dp(1) have z: "(d', p) \<in> set (zip ds ps)" by auto
    then have "d' \<in> set ds" by (auto dest: set_zip_leftD)
    with own d dp(2) have "d' = d" by (metis option.inject)
    moreover from pre z obtain mid where
      "p = parentPath @ [name (source field)] @ mid @ [name (source d')]" by blast
    ultimately show ?thesis using dp(3) by blast
  qed
  have c: "map_of ?u k = map_of fieldsById k" if "k \<noteq> id' field \<and> k \<notin> id' ` set ds" for k
  proof -
    from that written have "k \<notin> id' ` fst ` set ?ws" by simp
    then show ?thesis by (rule writePaths_other)
  qed
  have "(case parentId field of
              None \<Rightarrow> Inr []
            | Some parent \<Rightarrow>
                (case map_of fieldsById parent of
                   None \<Rightarrow> Inl TypeError
                 | Some parentField \<Rightarrow> Inr (path parentField))) = Inr parentPath"
    using parent by (auto split: option.splits)
  then have "updateFieldsPathAfterFieldNameChange fuel field fieldsById = Some (Inr (?new, ?u))"
    using upd a by (simp add: updateFieldsPathAfterFieldNameChange_def)
  with a b c show ?thesis by blast
qed

lemma rename_example:
  "updateFieldsPathAfterFieldNameChange 2 renamedField renameById
     = Some (Inr ([''z''],
         [(1, renameChild\<lparr>path := [''z'', ''b'']\<rparr>),
          (0, renamedField\<lparr>path := [''z'']\<rparr>)]))
   \<and> getAllChildFields 2 renamedField renameById = Some (Inr [renameChild])"
  using rename_updates_descendant_paths[of 2 renamedField renameById "[renameChild]" "[]"]
  by (simp add: updateFieldsPathAfterFieldNameChange_def getAllChildFields_def renameById_def
        renamedField_def renameParent_def renameChild_def Let_def numeral_2_eq_2)

text \<open>
  C9. The claim is made for every field and every \<open>byId\<close> map, and it does not hold for
  a field one of whose child ids is not in \<open>byId\<close>. \<open>updateFieldPath\<close> maps the child
  ids through \<open>byId[fieldId]\<close> and reads \<open>_field.source\<close> of each result without a check,
  so for the field \<open>danglingParent\<close>, whose only child id is not in the map, the call
  raises a \<open>TypeError\<close> and returns no map, whatever the fuel.
\<close>

theorem rename_dangling_child_raises:
  "updateFieldsPathAfterFieldNameChange (Suc fuel) danglingParent (byId danglingFields)
     = Some (Inl TypeError)"
  by (simp add: updateFieldsPathAfterFieldNameChange_def danglingFields_def danglingParent_def
        Let_def)

subsection \<open>The round trip\<close>













lemma distinct_keys_sort:
  "distinct (map fst entries) \<Longrightarrow> distinct (map fst (sort_key fst entries))"
proof -
  have "mset (map fst (sort_key fst entries)) = mset (map fst entries)" by simp
  then show "distinct (map fst entries) \<Longrightarrow> distinct (map fst (sort_key fst entries))"
    by (metis mset_eq_imp_distinct_iff)
qed





subsection \<open>The order of the keys of the input\<close>

declare sortFields.simps [simp del] sameFields.simps [simp del]

lemma insort_key_map_values:
  "insort_key fst (k, g v) (map (\<lambda>(k, v). (k, g v)) ys)
     = map (\<lambda>(k, v). (k, g v)) (insort_key fst (k, v) ys)"
  by (induction ys) auto

lemma sort_key_map_values:
  "sort_key fst (map (\<lambda>(k, v). (k, g v)) xs) = map (\<lambda>(k, v). (k, g v)) (sort_key fst xs)"
  by (induction xs) (auto simp: insort_key_map_values)

lemma sort_key_sortFields: "sort_key fst (sortFields fs) = sortFields fs"
  by (simp add: sortFields.simps sort_key_map_values sort_key_id_if_sorted)

lemma sortField_sel [simp]:
  "fname (sortField v) = fname v"
  "ftype (sortField v) = ftype v" "fpath (sortField v) = fpath v"
  "fparams (sortField v) = fparams v"
  "properties (sortField v) = map_option sortFields (properties v)"
  "fields (sortField v) = map_option sortFields (fields v)"
  by (cases v; simp)+

lemma sortFields_Nil [simp]: "(sortFields c = []) = (c = [])"
  by (simp add: sortFields.simps) (metis sort_key_simps(1) length_sort list.size(3) length_0_conv)

lemma inferType_sortField: "inferType (sortField v) = sortField (inferType v)"
  by (cases v) (auto simp: inferType_def)

lemma childContainer_sortField:
  "childContainer key (sortField v) = map_option sortFields (childContainer key v)"
  by (cases "(key, v)" rule: childContainer.cases) simp_all

lemma getFieldMeta_sortField: "getFieldMeta (sortField v) isMulti = getFieldMeta v isMulti"
proof -
  have "hasKeys (map_option sortFields c) = hasKeys c" for c :: "'a Fields option"
    by (cases c) (simp_all add: hasKeys_def)
  then show ?thesis
    by (simp add: getFieldMeta_def Let_def childContainer_sortField)
qed

lemma normalizedFieldOf_sortField:
  "normalizedFieldOf meta ident parent depth isMulti paths propName (sortField v)
     = normalizedFieldOf meta ident parent depth isMulti paths propName v"
  by (simp add: normalizedFieldOf_def)

lemma normalize_sorted:
  fixes fs :: "'v Fields" and entries :: "'v Fields" and entry :: "string \<times> 'v Field"
  shows
  "normalizeFields (sortFields fs) to paths arr depth isMulti parent env
     = normalizeFields fs to paths arr depth isMulti parent env"
  "reduceFields (map (\<lambda>(k, v). (k, sortField v)) entries) acc paths arr depth isMulti parent env
     = reduceFields entries acc paths arr depth isMulti parent env"
  "normalizeField acc (fst entry, sortField (snd entry)) paths arr depth isMulti parent env
     = normalizeField acc entry paths arr depth isMulti parent env"
proof (induction fs to paths arr depth isMulti parent env
         and entries acc paths arr depth isMulti parent env
         and acc entry paths arr depth isMulti parent env
       rule: normalize_induct)
  case (fields fs to paths arr depth isMulti parent env)
  have "normalizeFields (sortFields fs) to paths arr depth isMulti parent env
      = reduceFields (sortFields fs) to paths arr depth isMulti parent env"
    by (simp add: normalizeFields.simps sort_key_sortFields)
  also have "\<dots> = reduceFields (sort_key fst fs) to paths arr depth isMulti parent env"
    using fields by (simp add: sortFields.simps)
  finally show ?case by (simp add: normalizeFields.simps)
next
  case (nil acc paths arr depth isMulti parent env)
  show ?case by simp
next
  case (cons entry rest acc paths arr depth isMulti parent env)
  obtain acc1 arr1 env1 where
    r: "normalizeField acc entry paths arr depth isMulti parent env = (acc1, arr1, env1)"
    by (metis prod_cases3)
  from cons(1) r cons(2)[OF r] show ?case
    by (cases entry) simp
next
  case (field acc propName "value" paths arr depth isMulti parent env)
  let ?meta = "getFieldMeta (inferType value) isMulti"
  have meta: "getFieldMeta (inferType (sortField value)) isMulti = ?meta"
    by (simp add: inferType_sortField getFieldMeta_sortField)
  show ?case
  proof (cases "hasChildFields ?meta \<or> hasMultiFields ?meta")
    case True
    from getFieldMeta_container[OF True] obtain c where
      c: "childContainer (childFieldsName ?meta) (inferType value) = Some c" by blast
    then have "the (childContainer (childFieldsName ?meta) (inferType (sortField value)))
        = sortFields c"
      by (simp add: inferType_sortField childContainer_sortField)
    with field[OF True] c True meta show ?thesis
      by (simp add: normalizeField_unfold inferType_sortField normalizedFieldOf_sortField)
  next
    case False
    with meta show ?thesis
      by (simp add: normalizeField_unfold inferType_sortField normalizedFieldOf_sortField)
  qed
qed

lemma map_of_sort_key:
  "distinct (map fst m) \<Longrightarrow> map_of (sort_key fst m) = map_of m"
proof -
  assume d: "distinct (map fst m)"
  have "distinct (map fst (sort_key fst m))" using d by (rule distinct_keys_sort)
  moreover have "set (sort_key fst m) = set m" by simp
  ultimately show ?thesis using d by (intro map_of_inject_set[THEN iffD2]) auto
qed

lemma same_sorted:
  fixes m1 m2 :: "'v Fields" and v w :: "'v Field"
  shows "sameFields m1 m2 \<Longrightarrow> sortFields m1 = sortFields m2"
    and "sameField v w \<Longrightarrow> sortField v = sortField w"
proof (induction m1 m2 and v w rule: sameFields_sameField.induct)
  case (1 m1 m2)
  from 1(2) have d1: "distinct (map fst m1)" and d2: "distinct (map fst m2)"
    and keys: "set (map fst m1) = set (map fst m2)"
    and vals: "\<forall>(k, v) \<in> set m1. case map_of m2 k of None \<Rightarrow> False | Some w \<Rightarrow> sameField v w"
    by (simp_all add: sameFields.simps)
  let ?g = "\<lambda>(k, v). (k, sortField v)"
  let ?xs = "map ?g (sort_key fst m1)" and ?ys = "map ?g (sort_key fst m2)"
  have f1: "map fst ?xs = map fst (sort_key fst m1)"
    and f2: "map fst ?ys = map fst (sort_key fst m2)"
    by (simp_all add: case_prod_unfold comp_def)
  have "map fst (sort_key fst m1) = map fst (sort_key fst m2)"
  proof (rule sorted_distinct_set_unique)
    show "sorted (map fst (sort_key fst m1))" "sorted (map fst (sort_key fst m2))"
      by (rule sorted_sort_key)+
    show "distinct (map fst (sort_key fst m1))" "distinct (map fst (sort_key fst m2))"
      using d1 d2 by (simp_all add: distinct_keys_sort)
    show "set (map fst (sort_key fst m1)) = set (map fst (sort_key fst m2))"
      using keys by simp
  qed
  with f1 f2 have ks: "map fst ?xs = map fst ?ys" by simp
  have "?xs = ?ys"
  proof (rule alist_eqI[OF ks])
    show "distinct (map fst ?xs)" unfolding f1 using d1 by (rule distinct_keys_sort)
  next
    fix k assume "k \<in> set (map fst ?xs)"
    with f1 have "k \<in> set (map fst m1)" by simp
    then obtain v where kv: "(k, v) \<in> set m1" by auto
    with d1 have m1k: "map_of m1 k = Some v" by simp
    from kv vals obtain w where m2k: "map_of m2 k = Some w" and same: "sameField v w"
      by (auto split: option.splits)
    from 1(1)[OF kv refl m2k same] have "sortField v = sortField w" .
    with m1k m2k show "map_of ?xs k = map_of ?ys k"
      by (simp add: map_of_map map_of_sort_key d1 d2)
  qed
  then show ?case by (simp add: sortFields.simps)
next
  case (2 nm t p ps pr fl w)
  obtain nm' t' p' ps' pr' fl' where w: "w = Field nm' t' p' ps' pr' fl'" by (cases w)
  from 2(3) w have eq: "nm' = nm" "t' = t" "p' = p" "ps' = ps" by simp_all
  have "map_option sortFields pr = map_option sortFields pr'"
  proof (cases pr)
    case None
    with 2(3) w show ?thesis by simp
  next
    case (Some c)
    with 2(3) w obtain c' where c': "pr' = Some c'" "sameFields c c'"
      by (auto split: option.splits)
    with 2(1)[OF Some, of c'] w Some show ?thesis by simp
  qed
  moreover have "map_option sortFields fl = map_option sortFields fl'"
  proof (cases fl)
    case None
    with 2(3) w show ?thesis by simp
  next
    case (Some c)
    with 2(3) w obtain c' where c': "fl' = Some c'" "sameFields c c'"
      by (auto split: option.splits)
    with 2(2)[OF Some, of c'] w Some show ?thesis by simp
  qed
  ultimately show ?case using w eq by simp
qed

subsection \<open>Runs that start with different ids\<close>

text \<open>
  A run that starts \<open>k\<close> ids later gives the same result with \<open>k\<close> added to every id.
\<close>

definition shiftPath :: "nat \<Rightarrow> pathParam \<Rightarrow> pathParam" where
  "shiftPath k p = (case p of PathString s \<Rightarrow> PathString s | PathId t \<Rightarrow> PathId (t + k))"

definition shiftField :: "nat \<Rightarrow> 'v NormalizedField \<Rightarrow> 'v NormalizedField" where
  "shiftField k f =
     f\<lparr>id' := id' f + k,
       parentId := map_option (\<lambda>i. i + k) (parentId f),
       childFields := map_option (map (\<lambda>i. i + k)) (childFields f),
       source := (source f)\<lparr>spath := map_option (shiftPath k) (spath (source f))\<rparr>\<rparr>"

definition shiftById :: "nat \<Rightarrow> 'v ById \<Rightarrow> 'v ById" where
  "shiftById k fieldsById = map (\<lambda>(i, f). (i + k, shiftField k f)) fieldsById"

definition shiftAliases :: "nat \<Rightarrow> (fieldId \<times> fieldId list) list \<Rightarrow> (fieldId \<times> fieldId list) list" where
  "shiftAliases k aliasesMap = map (\<lambda>(t, ids). (t + k, map (\<lambda>i. i + k) ids)) aliasesMap"

lemma update_map_keys:
  "inj h \<Longrightarrow> AList.update (h i) (g v) (map (\<lambda>(j, x). (h j, g x)) al)
     = map (\<lambda>(j, x). (h j, g x)) (AList.update i v al)"
  by (induction al) (auto dest: injD)

lemma map_of_map_keys_values:
  "inj h \<Longrightarrow> map_of (map (\<lambda>(j, x). (h j, g x)) al) (h i) = map_option g (map_of al i)"
  by (induction al) (auto dest: injD)

lemma map_entry_map_keys:
  "inj h \<Longrightarrow> (\<And>x. f' (g x) = g (f x)) \<Longrightarrow>
   AList.map_entry (h i) f' (map (\<lambda>(j, x). (h j, g x)) al)
     = map (\<lambda>(j, x). (h j, g x)) (AList.map_entry i f al)"
  by (induction al) (auto dest: injD)

lemma inj_shift: "inj (\<lambda>i :: nat. i + k)"
  by (simp add: inj_on_def)

lemma update_shiftById:
  "AList.update (i + k) (shiftField k nf) (shiftById k acc) = shiftById k (AList.update i nf acc)"
  unfolding shiftById_def
  using update_map_keys[OF inj_shift[of k], where i = i and g = "shiftField k" and v = nf
          and al = acc]
  by simp

lemma normalizedFieldOf_shift:
  "(\<And>t. fpath field \<noteq> Some (PathId t)) \<Longrightarrow>
   shiftField k (normalizedFieldOf meta i parent depth isMulti paths propName field)
     = normalizedFieldOf (meta\<lparr>childFields := map_option (map (\<lambda>i. i + k)) (childFields meta)\<rparr>)
         (i + k) (map_option (\<lambda>i. i + k) parent) depth isMulti paths propName field"
  by (cases "fpath field")
     (auto simp: shiftField_def normalizedFieldOf_def FieldMeta.defs NormalizedField.defs
           shiftPath_def split: pathParam.splits)

lemma stringPath_inferType: "stringPath v \<Longrightarrow> stringPath (inferType v)"
  by (cases v) (simp add: inferType_def)

lemma stringPath_container:
  "stringPath v \<Longrightarrow> childContainer key v = Some c \<Longrightarrow> (\<forall>(k, w) \<in> set c. stringPath w)"
  by (cases "(key, v)" rule: childContainer.cases; cases v) auto

lemma stringPath_fpath: "stringPath v \<Longrightarrow> fpath v \<noteq> Some (PathId t)"
  by (cases v) (auto split: option.splits pathParam.splits)

lemma normalize_shift:
  fixes fs :: "'v Fields" and entries :: "'v Fields" and entry :: "string \<times> 'v Field"
  shows
  "(\<forall>(j, v) \<in> set fs. stringPath v) \<Longrightarrow>
   normalizeFields fs (shiftById k to) paths (map (\<lambda>i. i + k) arr) depth isMulti
       (map_option (\<lambda>i. i + k) parent) \<lparr>drawn = drawn env + k, maxDepth = maxDepth env\<rparr>
     = (case normalizeFields fs to paths arr depth isMulti parent env of
          (acc', arr', env') \<Rightarrow>
            (shiftById k acc', map (\<lambda>i. i + k) arr', \<lparr>drawn = drawn env' + k, maxDepth = maxDepth env'\<rparr>))"
  "(\<forall>(j, v) \<in> set entries. stringPath v) \<Longrightarrow>
   reduceFields entries (shiftById k acc) paths (map (\<lambda>i. i + k) arr) depth isMulti
       (map_option (\<lambda>i. i + k) parent) \<lparr>drawn = drawn env + k, maxDepth = maxDepth env\<rparr>
     = (case reduceFields entries acc paths arr depth isMulti parent env of
          (acc', arr', env') \<Rightarrow>
            (shiftById k acc', map (\<lambda>i. i + k) arr', \<lparr>drawn = drawn env' + k, maxDepth = maxDepth env'\<rparr>))"
  "stringPath (snd entry) \<Longrightarrow>
   normalizeField (shiftById k acc) entry paths (map (\<lambda>i. i + k) arr) depth isMulti
       (map_option (\<lambda>i. i + k) parent) \<lparr>drawn = drawn env + k, maxDepth = maxDepth env\<rparr>
     = (case normalizeField acc entry paths arr depth isMulti parent env of
          (acc', arr', env') \<Rightarrow>
            (shiftById k acc', map (\<lambda>i. i + k) arr', \<lparr>drawn = drawn env' + k, maxDepth = maxDepth env'\<rparr>))"
proof (induction fs to paths arr depth isMulti parent env
         and entries acc paths arr depth isMulti parent env
         and acc entry paths arr depth isMulti parent env
       rule: normalize_induct)
  case (fields fs to paths arr depth isMulti parent env)
  then show ?case by (simp add: normalizeFields.simps)
next
  case (nil acc paths arr depth isMulti parent env)
  show ?case by simp
next
  case (cons entry rest acc paths arr depth isMulti parent env)
  obtain acc1 arr1 env1 where
    r: "normalizeField acc entry paths arr depth isMulti parent env = (acc1, arr1, env1)"
    by (metis prod_cases3)
  from cons(3) have e: "stringPath (snd entry)" and rs: "\<forall>(j, v) \<in> set rest. stringPath v"
    by auto
  from cons(1)[OF e] r cons(2)[OF r rs] show ?case by simp
next
  case (field acc propName "value" paths arr depth isMulti parent env)
  from field(2) have sp: "stringPath (inferType value)"
    by (simp add: stringPath_inferType)
  let ?meta = "getFieldMeta (inferType value) isMulti"
  show ?case
  proof (cases "hasChildFields ?meta \<or> hasMultiFields ?meta")
    case True
    from getFieldMeta_container[OF True] obtain c where
      c: "childContainer (childFieldsName ?meta) (inferType value) = Some c" by blast
    from stringPath_container[OF sp c] have spc: "\<forall>(j, v) \<in> set c. stringPath v" .
    let ?env0 = "env\<lparr>drawn := Suc (drawn env), maxDepth := max (maxDepth env) (Suc depth)\<rparr>"
    obtain acc' kids env'' where r: "normalizeFields c acc (paths @ [propName]) [] (Suc depth)
        (canHaveMultiFields ?meta) (Some (drawn env)) ?env0 = (acc', kids, env'')"
      by (metis prod_cases3)
    from field(1)[OF True] c spc r
    have "normalizeFields c (shiftById k acc) (paths @ [propName]) [] (Suc depth)
        (canHaveMultiFields ?meta) (Some (drawn env + k))
        \<lparr>drawn = Suc (drawn env + k), maxDepth = max (maxDepth env) (Suc depth)\<rparr>
      = (shiftById k acc', map (\<lambda>i. i + k) kids,
         \<lparr>drawn = drawn env'' + k, maxDepth = maxDepth env''\<rparr>)"
      by simp
    with True c r show ?thesis
      by (simp add: normalizeField_unfold update_shiftById[symmetric]
            normalizedFieldOf_shift[OF stringPath_fpath[OF sp]])
  next
    case False
    have none: "childFields ?meta = None" "?meta\<lparr>childFields := None\<rparr> = ?meta"
      by (simp_all add: getFieldMeta_def Let_def)
    from False show ?thesis
      by (simp add: normalizeField_unfold update_shiftById[symmetric]
            normalizedFieldOf_shift[OF stringPath_fpath[OF sp]] none)
  qed
qed

lemma shiftField_sel [simp]:
  "id' (shiftField k f) = id' f + k"
  "path (shiftField k f) = path f"
  "type (source (shiftField k f)) = type (source f)"
  "spath (source (shiftField k f)) = map_option (shiftPath k) (spath (source f))"
  "parentId (shiftField k f) = map_option (\<lambda>i. i + k) (parentId f)"
  "childFields (shiftField k f) = map_option (map (\<lambda>i. i + k)) (childFields f)"
  by (simp_all add: shiftField_def)

lemma shiftPath_string [simp]:
  "(Some (PathString s) = map_option (shiftPath k) p) = (Some (PathString s) = p)"
  by (cases p) (auto simp: shiftPath_def split: pathParam.splits)

lemma setSourcePath_shift:
  "setSourcePath (PathId (t + k)) (shiftField k f) = shiftField k (setSourcePath (PathId t) f)"
  by (simp add: setSourcePath_def shiftField_def shiftPath_def)

lemma map_of_shiftAliases:
  "map_of (shiftAliases k A) (t + k) = map_option (map (\<lambda>i. i + k)) (map_of A t)"
  unfolding shiftAliases_def
  using map_of_map_keys_values[OF inj_shift[of k], where g = "map (\<lambda>i. i + k)" and al = A
          and i = t]
  by simp

lemma update_shiftAliases:
  "AList.update (t + k) (map (\<lambda>i. i + k) ids) (shiftAliases k A)
     = shiftAliases k (AList.update t ids A)"
  unfolding shiftAliases_def
  using update_map_keys[OF inj_shift[of k], where g = "map (\<lambda>i. i + k)" and al = A
          and i = t and v = ids]
  by simp

lemma map_entry_shiftById:
  "AList.map_entry (i + k) (setSourcePath (PathId (t + k))) (shiftById k U)
     = shiftById k (AList.map_entry i (setSourcePath (PathId t)) U)"
  unfolding shiftById_def
  using map_entry_map_keys[OF inj_shift[of k], where g = "shiftField k" and al = U and i = i
          and f = "setSourcePath (PathId t)" and f' = "setSourcePath (PathId (t + k))"]
  by (simp add: setSourcePath_shift)

lemma find_shift:
  "List.find (\<lambda>g. Some (PathString (joinDot (path g))) = p) (map snd (shiftById k U))
     = map_option (shiftField k)
         (List.find (\<lambda>g. Some (PathString (joinDot (path g))) = p) (map snd U))"
  by (induction U) (auto simp: shiftById_def)

lemma aliasStep_shift:
  "aliasStep (i + k, shiftField k f) (shiftAliases k A, shiftById k U)
     = (case aliasStep (i, f) (A, U) of (A', U') \<Rightarrow> (shiftAliases k A', shiftById k U'))"
proof (cases "type (source f) = Some ''alias''")
  case False
  then show ?thesis by (simp add: aliasStep_def)
next
  case True
  show ?thesis
  proof (cases "List.find (\<lambda>g. Some (PathString (joinDot (path g))) = spath (source f))
                  (map snd U)")
    case None
    with True show ?thesis by (simp add: aliasStep_def find_shift)
  next
    case (Some tgt)
    have "(case map_of (shiftAliases k A) (id' tgt + k) of None \<Rightarrow> [] | Some ids \<Rightarrow> ids)
            @ [i + k]
          = map (\<lambda>i. i + k)
              ((case map_of A (id' tgt) of None \<Rightarrow> [] | Some ids \<Rightarrow> ids) @ [i])"
      by (simp add: map_of_shiftAliases split: option.splits)
    moreover have "AList.update (id' tgt + k) (map (\<lambda>i. i + k) old @ [i + k]) (shiftAliases k A)
          = shiftAliases k (AList.update (id' tgt) (old @ [i]) A)" for old
      using update_shiftAliases[of "id' tgt" k "old @ [i]" A] by simp
    ultimately show ?thesis
      using True Some by (simp add: aliasStep_def find_shift map_entry_shiftById)
  qed
qed

lemma aliasFold_shift:
  "fold aliasStep (shiftById k xs) (shiftAliases k A, shiftById k U)
     = (case fold aliasStep xs (A, U) of (A', U') \<Rightarrow> (shiftAliases k A', shiftById k U'))"
proof (induction xs arbitrary: A U)
  case Nil
  then show ?case by (simp add: shiftById_def)
next
  case (Cons e xs)
  obtain i f where e: "e = (i, f)" by (cases e)
  obtain A1 U1 where s: "aliasStep (i, f) (A, U) = (A1, U1)" by (metis prod.exhaust)
  have "fold aliasStep (shiftById k (e # xs)) (shiftAliases k A, shiftById k U)
      = fold aliasStep (shiftById k xs) (shiftAliases k A1, shiftById k U1)"
    using aliasStep_shift[of i k f A U] s by (simp add: e shiftById_def)
  with Cons.IH[of A1 U1] s e show ?case by simp
qed

lemma replaceAliasPathByAliasId_shift:
  "replaceAliasPathByAliasId (shiftById k B)
     = (case replaceAliasPathByAliasId B of (A, U) \<Rightarrow> (shiftAliases k A, shiftById k U))"
  using aliasFold_shift[of k B "[]" B]
  by (simp add: replaceAliasPathByAliasId_def shiftAliases_def)

definition shiftNormalizedFields :: "nat \<Rightarrow> 'v NormalizedFields \<Rightarrow> 'v NormalizedFields" where
  "shiftNormalizedFields k nfs =
     \<lparr>byId = shiftById k (byId nfs),
      rootLevelFields = map (\<lambda>i. i + k) (rootLevelFields nfs),
      aliases = shiftAliases k (aliases nfs),
      maxNestedDepth = maxNestedDepth nfs\<rparr>"

lemma normalize_later:
  assumes "stringPaths m"
  shows "normalize (n + k) m = shiftNormalizedFields k (normalize n m)"
proof -
  obtain B roots env where
    r: "normalizeFields m [] [] [] 0 False None \<lparr>drawn = n, maxDepth = 0\<rparr> = (B, roots, env)"
    by (metis prod_cases3)
  obtain A U where a: "replaceAliasPathByAliasId B = (A, U)" by (metis prod.exhaust)
  from assms have "\<forall>(j, v) \<in> set m. stringPath v" by simp
  from normalize_shift(1)[OF this, of k "[]" "[]" "[]" 0 False None "\<lparr>drawn = n, maxDepth = 0\<rparr>"] r
  have r': "normalizeFields m [] [] [] 0 False None \<lparr>drawn = n + k, maxDepth = 0\<rparr>
      = (shiftById k B, map (\<lambda>i. i + k) roots, \<lparr>drawn = drawn env + k, maxDepth = maxDepth env\<rparr>)"
    by (simp add: shiftById_def)
  from replaceAliasPathByAliasId_shift[of k B] a
  have a': "replaceAliasPathByAliasId (shiftById k B) = (shiftAliases k A, shiftById k U)"
    by simp
  show ?thesis
    using r a r' a' by (simp add: normalize_def shiftNormalizedFields_def)
qed

lemma pathOfId_shift: "pathOfId (shiftById k B) (i + k) = pathOfId B i"
  unfolding pathOfId_def shiftById_def
  using map_of_map_keys_values[OF inj_shift[of k], where g = "shiftField k" and al = B
          and i = i]
  by (simp add: option.map_comp comp_def)

lemma fieldByPath_shift: "fieldByPath (shiftById k B) (shiftField k f) = fieldByPath B f"
proof -
  have "(shiftField k f)\<lparr>id' := 0, parentId := None, childFields := None,
          source := (source (shiftField k f))\<lparr>spath := None\<rparr>\<rparr>
        = f\<lparr>id' := 0, parentId := None, childFields := None,
            source := (source f)\<lparr>spath := None\<rparr>\<rparr>"
    by (simp add: shiftField_def)
  moreover have "map_option (\<lambda>p. case p of PathString s \<Rightarrow> Inl s
                              | PathId target \<Rightarrow> Inr (pathOfId (shiftById k B) target))
        (map_option (shiftPath k) (spath (source f)))
      = map_option (\<lambda>p. case p of PathString s \<Rightarrow> Inl s
                              | PathId target \<Rightarrow> Inr (pathOfId B target))
        (spath (source f))"
    by (cases "spath (source f)")
       (auto simp: shiftPath_def pathOfId_shift split: pathParam.splits)
  ultimately show ?thesis
    by (cases "parentId f"; cases "childFields f")
       (simp_all add: fieldByPath_def pathOfId_shift comp_def)
qed

lemma byPath_shift: "byPath (shiftNormalizedFields k nfs) = byPath nfs"
proof -
  have "map (\<lambda>(ident, f). F f) (shiftById k B) = map (\<lambda>(ident, f). G f) B"
    if "\<And>f. F (shiftField k f) = G f"
    for B :: "'a ById" and F G :: "'a NormalizedField \<Rightarrow> 'a fieldByPath"
    using that by (simp add: shiftById_def case_prod_unfold comp_def)
  from this[of "fieldByPath (shiftById k B)" "fieldByPath B" for B, OF fieldByPath_shift]
  have "map (\<lambda>(ident, f). fieldByPath (shiftById k B) f) (shiftById k B)
        = map (\<lambda>(ident, f). fieldByPath B f) B" for B :: "'a ById" .
  moreover have "map (\<lambda>(target, ids). (pathOfId (shiftById k B) target,
                    map (pathOfId (shiftById k B)) ids)) (shiftAliases k A)
        = map (\<lambda>(target, ids). (pathOfId B target, map (pathOfId B) ids)) A"
    for B :: "'a ById" and A
    by (simp add: shiftAliases_def case_prod_unfold comp_def pathOfId_shift)
  ultimately show ?thesis
    by (simp add: byPath_def shiftNormalizedFields_def comp_def pathOfId_shift)
qed

subsection \<open>The order in which the fields are listed\<close>

text \<open>
  \<open>listed M paths names ids\<close>: the ids are ascending, that is in the order they were
  drawn, and the i-th of them is the id of the field with the i-th of the names under
  \<open>paths\<close>. \<open>ordered lo hi M\<close>: the children of every field \<open>M\<close> holds under a key from
  \<open>lo\<close> up to \<open>hi\<close> were drawn after the field and are listed in the order of some sorted
  list of names.
\<close>

lemma map_insort_key: "map f (insort_key f x xs) = insort (f x) (map f xs)"
  by (induction xs) auto

lemma map_sort_key: "map f (sort_key f xs) = sort (map f xs)"
  by (induction xs) (auto simp: map_insort_key)

definition listed ::
    "(fieldId \<Rightarrow> 'v NormalizedField option) \<Rightarrow> string list \<Rightarrow> string list \<Rightarrow> fieldId list
      \<Rightarrow> bool" where
  "listed M paths names ids =
     (sorted_wrt (<) ids
      \<and> map (\<lambda>i. map_option path (M i)) ids = map (\<lambda>k. Some (paths @ [k])) names)"

definition ordered :: "nat \<Rightarrow> nat \<Rightarrow> (fieldId \<Rightarrow> 'v NormalizedField option) \<Rightarrow> bool" where
  "ordered lo hi M =
     (\<forall>k f kids. lo \<le> k \<and> k < hi \<and> M k = Some f \<and> childFields f = Some kids \<longrightarrow>
        set kids \<subseteq> {Suc k ..< hi}
        \<and> (\<exists>names. sorted names \<and> listed M (path f) names kids))"

lemma listed_cong:
  "listed M paths names ids \<Longrightarrow> (\<And>i. i \<in> set ids \<Longrightarrow> M' i = M i) \<Longrightarrow>
   listed M' paths names ids"
proof -
  assume l: "listed M paths names ids" and same: "\<And>i. i \<in> set ids \<Longrightarrow> M' i = M i"
  from same have "map (\<lambda>i. map_option path (M' i)) ids = map (\<lambda>i. map_option path (M i)) ids"
    by simp
  with l show ?thesis by (simp add: listed_def)
qed

lemma listed_nil: "listed M paths [] []"
  by (simp add: listed_def)

lemma listed_cons:
  assumes "map_option path (M i) = Some (paths @ [k])" and "listed M paths names ids"
    and "\<And>j. j \<in> set ids \<Longrightarrow> i < j"
  shows "listed M paths (k # names) (i # ids)"
  using assms by (simp add: listed_def)

lemma ordered_cong:
  assumes o: "ordered lo hi M" and same: "\<And>k. lo \<le> k \<Longrightarrow> k < hi \<Longrightarrow> M' k = M k"
  shows "ordered lo hi M'"
  unfolding ordered_def
proof (intro allI impI)
  fix k f kids
  assume a: "lo \<le> k \<and> k < hi \<and> M' k = Some f \<and> childFields f = Some kids"
  with same[of k] have "lo \<le> k \<and> k < hi \<and> M k = Some f \<and> childFields f = Some kids" by auto
  with o have sub: "set kids \<subseteq> {Suc k ..< hi}"
    and ex: "\<exists>names. sorted names \<and> listed M (path f) names kids"
    unfolding ordered_def by blast+
  from ex obtain names where n: "sorted names" "listed M (path f) names kids" by blast
  have "listed M' (path f) names kids"
  proof (rule listed_cong[OF n(2)])
    fix i assume "i \<in> set kids"
    with sub a have "lo \<le> i" "i < hi" by auto
    then show "M' i = M i" by (rule same)
  qed
  with sub n(1) show "set kids \<subseteq> {Suc k ..< hi}
        \<and> (\<exists>names. sorted names \<and> listed M' (path f) names kids)" by blast
qed

lemma ordered_join:
  assumes a: "ordered lo mid M" and b: "ordered mid hi M" and le: "lo \<le> mid" "mid \<le> hi"
  shows "ordered lo hi M"
  unfolding ordered_def
proof (intro allI impI)
  fix k f kids
  assume kf: "lo \<le> k \<and> k < hi \<and> M k = Some f \<and> childFields f = Some kids"
  show "set kids \<subseteq> {Suc k ..< hi}
        \<and> (\<exists>names. sorted names \<and> listed M (path f) names kids)"
  proof (cases "k < mid")
    case True
    with kf a have "set kids \<subseteq> {Suc k ..< mid}"
      "\<exists>names. sorted names \<and> listed M (path f) names kids"
      unfolding ordered_def by blast+
    with le(2) show ?thesis by auto
  next
    case False
    with kf have "mid \<le> k \<and> k < hi \<and> M k = Some f \<and> childFields f = Some kids" by simp
    with b show ?thesis unfolding ordered_def by blast
  qed
qed

lemma ordered_empty: "ordered lo lo M"
  by (auto simp: ordered_def)

lemma ordered_parent:
  assumes sub: "ordered (Suc i) hi M" and le: "Suc i \<le> hi"
    and g: "M i = Some g"
    and kids: "\<And>kids. childFields g = Some kids \<Longrightarrow>
        set kids \<subseteq> {Suc i ..< hi} \<and> (\<exists>names. sorted names \<and> listed M (path g) names kids)"
  shows "ordered i hi M"
  unfolding ordered_def
proof (intro allI impI)
  fix k f ks
  assume kf: "i \<le> k \<and> k < hi \<and> M k = Some f \<and> childFields f = Some ks"
  show "set ks \<subseteq> {Suc k ..< hi} \<and> (\<exists>names. sorted names \<and> listed M (path f) names ks)"
  proof (cases "k = i")
    case True
    with kf g kids show ?thesis by simp
  next
    case False
    with kf have "Suc i \<le> k \<and> k < hi \<and> M k = Some f \<and> childFields f = Some ks" by simp
    with sub show ?thesis unfolding ordered_def by blast
  qed
qed

lemma normalize_ordered:
  fixes fs :: "'v Fields" and entries :: "'v Fields" and entry :: "string \<times> 'v Field"
  shows
  "case normalizeFields fs to paths arr depth isMulti parent env of
     (acc', arr', env') \<Rightarrow>
       \<exists>ids. arr' = arr @ ids \<and> set ids \<subseteq> {drawn env ..< drawn env'}
         \<and> listed (map_of acc') paths (map fst (sort_key fst fs)) ids
         \<and> ordered (drawn env) (drawn env') (map_of acc')"
  "case reduceFields entries acc paths arr depth isMulti parent env of
     (acc', arr', env') \<Rightarrow>
       \<exists>ids. arr' = arr @ ids \<and> set ids \<subseteq> {drawn env ..< drawn env'}
         \<and> listed (map_of acc') paths (map fst entries) ids
         \<and> ordered (drawn env) (drawn env') (map_of acc')"
  "case normalizeField acc entry paths arr depth isMulti parent env of
     (acc', arr', env') \<Rightarrow>
       arr' = arr @ [drawn env]
       \<and> map_option path (map_of acc' (drawn env)) = Some (paths @ [fst entry])
       \<and> ordered (drawn env) (drawn env') (map_of acc')"
proof (induction fs to paths arr depth isMulti parent env
         and entries acc paths arr depth isMulti parent env
         and acc entry paths arr depth isMulti parent env
       rule: normalize_induct)
  case (fields fs to paths arr depth isMulti parent env)
  then show ?case by (simp add: normalizeFields.simps)
next
  case (nil acc paths arr depth isMulti parent env)
  then show ?case by (simp add: ordered_empty listed_nil)
next
  case (cons entry rest acc paths arr depth isMulti parent env)
  obtain acc1 arr1 env1 where
    r: "normalizeField acc entry paths arr depth isMulti parent env = (acc1, arr1, env1)"
    by (metis prod_cases3)
  obtain acc2 arr2 env2 where
    r2: "reduceFields rest acc1 paths arr1 depth isMulti parent env1 = (acc2, arr2, env2)"
    by (metis prod_cases3)
  from cons(1) r have one: "arr1 = arr @ [drawn env]"
    "map_option path (map_of acc1 (drawn env)) = Some (paths @ [fst entry])"
    "ordered (drawn env) (drawn env1) (map_of acc1)" by simp_all
  from cons(2)[OF r] r2 obtain ids where ids: "arr2 = arr1 @ ids"
    "set ids \<subseteq> {drawn env1 ..< drawn env2}"
    "listed (map_of acc2) paths (map fst rest) ids"
    "ordered (drawn env1) (drawn env2) (map_of acc2)" by auto
  from normalizeField_frame[OF r]
  have f1: "frame acc arr env acc1 arr1 env1" and lt: "drawn env < drawn env1" by simp_all
  from reduceFields_frame[OF r2]
  have f2: "frame acc1 arr1 env1 acc2 arr2 env2" by simp
  have keep: "map_of acc2 k = map_of acc1 k" if "k < drawn env1" for k
    using that by (simp add: frame_map_of[OF f2])
  have o1: "ordered (drawn env) (drawn env1) (map_of acc2)"
    by (rule ordered_cong[OF one(3)]) (simp add: keep)
  have o: "ordered (drawn env) (drawn env2) (map_of acc2)"
    by (rule ordered_join[OF o1 ids(4)]) (use lt frame_drawn[OF f2] in simp_all)
  have l: "listed (map_of acc2) paths (map fst (entry # rest)) (drawn env # ids)"
    unfolding list.map
  proof (rule listed_cons[OF _ ids(3)])
    show "map_option path (map_of acc2 (drawn env)) = Some (paths @ [fst entry])"
      using one(2) keep[OF lt] by simp
  next
    fix j assume "j \<in> set ids"
    with ids(2) lt show "drawn env < j" by auto
  qed
  have "set (drawn env # ids) \<subseteq> {drawn env ..< drawn env2}"
    using ids(2) lt frame_drawn[OF f2] by auto
  with l o one(1) ids(1) r r2 show ?case by simp
next
  case (field acc propName "value" paths arr depth isMulti parent env)
  let ?meta = "getFieldMeta (inferType value) isMulti"
  show ?case
  proof (cases "hasChildFields ?meta \<or> hasMultiFields ?meta")
    case True
    let ?env0 = "env\<lparr>drawn := Suc (drawn env), maxDepth := max (maxDepth env) (Suc depth)\<rparr>"
    let ?c = "the (childContainer (childFieldsName ?meta) (inferType value))"
    obtain acc' kids env'' where r: "normalizeFields ?c
                acc (paths @ [propName]) [] (Suc depth) (canHaveMultiFields ?meta)
                (Some (drawn env)) ?env0 = (acc', kids, env'')"
      by (metis prod_cases3)
    let ?nf = "normalizedFieldOf (?meta\<lparr>childFields := Some kids\<rparr>)
           (drawn env) parent depth isMulti paths propName (inferType value)"
    let ?M = "map_of (AList.update (drawn env) ?nf acc')"
    from field[OF True] r
    have sub: "set kids \<subseteq> {Suc (drawn env) ..< drawn env''}"
      and l: "listed (map_of acc') (paths @ [propName]) (map fst (sort_key fst ?c)) kids"
      and o: "ordered (Suc (drawn env)) (drawn env'') (map_of acc')" by simp_all
    from normalizeFields_frame[OF r]
    have fr: "frame acc [] ?env0 acc' kids env''" by simp
    have same: "?M k = map_of acc' k" if "Suc (drawn env) \<le> k" for k
      using that by (simp add: update_conv')
    have o': "ordered (Suc (drawn env)) (drawn env'') ?M"
      by (rule ordered_cong[OF o]) (simp add: same)
    have l': "listed ?M (paths @ [propName]) (map fst (sort_key fst ?c)) kids"
    proof (rule listed_cong[OF l])
      fix i assume "i \<in> set kids"
      with sub have "Suc (drawn env) \<le> i" by auto
      then show "?M i = map_of acc' i" by (rule same)
    qed
    have "ordered (drawn env) (drawn env'') ?M"
    proof (rule ordered_parent[OF o', where g = ?nf])
      show "Suc (drawn env) \<le> drawn env''" using frame_drawn[OF fr] by simp
      show "?M (drawn env) = Some ?nf" by (simp add: update_conv')
    next
      fix ks assume "childFields ?nf = Some ks"
      then have "ks = kids" by simp
      with sub l' show "set ks \<subseteq> {Suc (drawn env) ..< drawn env''}
          \<and> (\<exists>names. sorted names \<and> listed ?M (path ?nf) names ks)"
        by (auto intro: exI[of _ "map fst (sort_key fst ?c)"])
    qed
    with True r show ?thesis by (simp add: normalizeField_unfold update_conv')
  next
    case False
    let ?nf = "normalizedFieldOf ?meta (drawn env) parent depth isMulti paths propName
                 (inferType value)"
    let ?M = "map_of (AList.update (drawn env) ?nf acc)"
    have none: "childFields ?meta = None" by (simp add: getFieldMeta_def Let_def)
    have "ordered (drawn env) (Suc (drawn env)) ?M"
      by (rule ordered_parent[where g = ?nf]) (simp_all add: update_conv' ordered_empty none)
    with False show ?thesis by (simp add: normalizeField_unfold update_conv')
  qed
qed


lemma aliasInv_path:
  assumes inv: "aliasInv B D (A, U)"
  shows "pathOfId U i = pathOfId B i"
proof (cases "map_of B i")
  case None
  from inv have "map fst U = map fst B" by (simp add: aliasInv_def)
  then have "fst ` set U = fst ` set B" by (metis set_map)
  with None have "map_of U i = None" by (simp add: map_of_eq_None_iff)
  with None show ?thesis by (simp add: pathOfId_def)
next
  case (Some f)
  from aliasInv_lookup[OF inv Some] obtain g where
    "map_of U i = Some g" "g = f \<or> (\<exists>t. g = setSourcePath (PathId t) f)" by blast
  with Some show ?thesis by (auto simp: pathOfId_def)
qed

lemma normalize_in_name_order:
  fixes m :: "'v Fields"
  shows "map (pathOfId (byId (normalize n m))) (rootLevelFields (normalize n m))
           = map (\<lambda>k. Some [k]) (sort (map fst m))"
    and "sorted_wrt (<) (rootLevelFields (normalize n m))"
    and "\<forall>(i, f) \<in> set (byId (normalize n m)). \<forall>kids. childFields f = Some kids \<longrightarrow>
           sorted_wrt (<) kids \<and> (\<forall>k \<in> set kids. i < k)
           \<and> (\<exists>names. sorted names
                \<and> map (pathOfId (byId (normalize n m))) kids
                    = map (\<lambda>k. Some (path f @ [k])) names)"
proof -
  obtain B roots env A U where
    r: "normalizeFields m [] [] [] 0 False None \<lparr>drawn = n, maxDepth = 0\<rparr> = (B, roots, env)"
    and nm: "normalize n m = \<lparr>byId = U, rootLevelFields = roots, aliases = A,
                      maxNestedDepth = maxDepth env\<rparr>"
    and dist: "distinct (map fst B)"
    and keys: "fst ` set B \<subseteq> {n ..< drawn env}"
    and inv: "aliasInv B (fst ` set B) (A, U)"
    by (rule normalize_run[of m n])
  have "case normalizeFields m [] [] [] 0 False None \<lparr>drawn = n, maxDepth = 0\<rparr> of
     (acc', arr', env') \<Rightarrow>
       \<exists>ids. arr' = [] @ ids \<and> set ids \<subseteq> {drawn \<lparr>drawn = n, maxDepth = 0\<rparr> ..< drawn env'}
         \<and> listed (map_of acc') [] (map fst (sort_key fst m)) ids
         \<and> ordered (drawn \<lparr>drawn = n, maxDepth = 0\<rparr>) (drawn env') (map_of acc')"
    by (rule normalize_ordered(1))
  with r have l: "listed (map_of B) [] (map fst (sort_key fst m)) roots"
    and o: "ordered n (drawn env) (map_of B)" by simp_all
  have pU: "pathOfId U = (\<lambda>i. map_option path (map_of B i))"
    using aliasInv_path[OF inv] by (intro ext) (simp add: pathOfId_def)
  from l show "map (pathOfId (byId (normalize n m))) (rootLevelFields (normalize n m))
           = map (\<lambda>k. Some [k]) (sort (map fst m))"
    by (simp add: nm listed_def pU map_sort_key)
  from l show "sorted_wrt (<) (rootLevelFields (normalize n m))"
    by (simp add: nm listed_def)
  have "sorted_wrt (<) kids \<and> (\<forall>k \<in> set kids. i < k)
           \<and> (\<exists>names. sorted names
                \<and> map (pathOfId U) kids = map (\<lambda>k. Some (path g @ [k])) names)"
    if mem: "(i, g) \<in> set U" and kids: "childFields g = Some kids" for i g kids
  proof -
    from aliasInv_entry[OF inv dist mem] obtain f where
      f: "(i, f) \<in> set B" "map_of B i = Some f" "g = f \<or> (\<exists>t. g = setSourcePath (PathId t) f)"
      by blast
    from f(3) kids have fk: "childFields f = Some kids" and pg: "path g = path f" by auto
    from f(1) keys have "n \<le> i \<and> i < drawn env" by force
    with o f(2) fk have sub: "set kids \<subseteq> {Suc i ..< drawn env}"
      and "\<exists>names. sorted names \<and> listed (map_of B) (path f) names kids"
      unfolding ordered_def by blast+
    then obtain names where names: "sorted names" "listed (map_of B) (path f) names kids"
      by blast
    from names(2) have "sorted_wrt (<) kids"
      "map (pathOfId U) kids = map (\<lambda>k. Some (path g @ [k])) names"
      by (simp_all add: listed_def pU pg)
    moreover from sub have "\<forall>k \<in> set kids. i < k" by auto
    ultimately show ?thesis using names(1) by blast
  qed
  moreover have byU: "byId (normalize n m) = U" by (simp add: nm)
  ultimately show "\<forall>(i, f) \<in> set (byId (normalize n m)). \<forall>kids. childFields f = Some kids \<longrightarrow>
           sorted_wrt (<) kids \<and> (\<forall>k \<in> set kids. i < k)
           \<and> (\<exists>names. sorted names
                \<and> map (pathOfId (byId (normalize n m))) kids
                    = map (\<lambda>k. Some (path f @ [k])) names)"
    unfolding byU by blast
qed

text \<open>
  C8. \<open>normalize\<close> processes sibling names in lexicographic order, not in insertion
  order. For every mapping: the root-level fields are listed in the order of the
  sorted names of the mapping, and their ids were drawn in that order (they ascend);
  the children of every field are listed in the order of a sorted list of names, each
  child's path being the path of the field and that name, and their ids were drawn in
  that order, after the id of the field. So a mapping and the same mapping with sorted
  keys give the same result. Two mappings that are equal as key-value maps
  (\<open>sameFields\<close>: the same field names at every level, in any order) have the same
  sorted form, so with the same ids drawn their results are equal, and with any two
  first ids their results are equal when compared by path (\<open>byPath\<close>).
\<close>

theorem normalize_independent_of_key_order:
  assumes "sameFields m1 m2" and "stringPaths m1"
  shows "map (pathOfId (byId (normalize n m1))) (rootLevelFields (normalize n m1))
           = map (\<lambda>k. Some [k]) (sort (map fst m1))
         \<and> sorted_wrt (<) (rootLevelFields (normalize n m1))
         \<and> (\<forall>(i, f) \<in> set (byId (normalize n m1)). \<forall>kids. childFields f = Some kids \<longrightarrow>
               sorted_wrt (<) kids \<and> (\<forall>k \<in> set kids. i < k)
               \<and> (\<exists>names. sorted names
                    \<and> map (pathOfId (byId (normalize n m1))) kids
                        = map (\<lambda>k. Some (path f @ [k])) names))
         \<and> normalize n m1 = normalize n (sortFields m1)
         \<and> normalize n m1 = normalize n m2
         \<and> byPath (normalize n1 m1) = byPath (normalize n2 m2)"
proof -
  have sorted: "normalize i m = normalize i (sortFields m)" for i and m :: "'a Fields"
    by (simp add: normalize_def normalize_sorted(1))
  from same_sorted(1)[OF assms(1)] have "sortFields m1 = sortFields m2" .
  with sorted[of _ m1] sorted[of _ m2] have same: "normalize i m1 = normalize i m2" for i
    by simp
  have "byPath (normalize n1 m1) = byPath (normalize n2 m1)"
  proof (cases "n1 \<le> n2")
    case True
    then obtain k where "n2 = n1 + k" by (auto simp: le_iff_add)
    with normalize_later[OF assms(2), of n1 k] show ?thesis by (simp add: byPath_shift)
  next
    case False
    then obtain k where "n1 = n2 + k" by (metis le_iff_add nat_le_linear)
    with normalize_later[OF assms(2), of n2 k] show ?thesis by (simp add: byPath_shift)
  qed
  with same have paths: "byPath (normalize n1 m1) = byPath (normalize n2 m2)" by simp
  from normalize_in_name_order[of n m1] sorted[of n m1] same[of n] paths
  show ?thesis by blast
qed

theorem normalize_independent_of_key_order_witness:
  "sameFields (orderExample :: unit Fields) orderExampleSorted
   \<and> stringPaths (orderExample :: unit Fields)
   \<and> rootLevelFields (normalize 0 (orderExample :: unit Fields)) = [0, 1]
   \<and> map (pathOfId (byId (normalize 0 (orderExample :: unit Fields)))) [0, 1]
       = [Some [''a''], Some [''b'']]
   \<and> map_option childFields (map_of (byId (normalize 0 (orderExample :: unit Fields))) 1)
       = Some (Some [2, 3])
   \<and> map (pathOfId (byId (normalize 0 (orderExample :: unit Fields)))) [2, 3]
       = [Some [''b'', ''x''], Some [''b'', ''y'']]
   \<and> normalize 0 (orderExample :: unit Fields) = normalize 0 orderExampleSorted
   \<and> byPath (normalize 0 (orderExample :: unit Fields))
       = byPath (normalize 7 (orderExampleSorted :: unit Fields))"
proof -
  have same: "sameFields (orderExample :: unit Fields) orderExampleSorted"
    by (auto simp: orderExample_def orderExampleSorted_def sameFields.simps)
  have strings: "stringPaths (orderExample :: unit Fields)"
    by (simp add: orderExample_def)
  have listing: "rootLevelFields (normalize 0 (orderExample :: unit Fields)) = [0, 1]"
    "map (pathOfId (byId (normalize 0 (orderExample :: unit Fields)))) [0, 1]
       = [Some [''a''], Some [''b'']]"
    "map_option childFields (map_of (byId (normalize 0 (orderExample :: unit Fields))) 1)
       = Some (Some [2, 3])"
    "map (pathOfId (byId (normalize 0 (orderExample :: unit Fields)))) [2, 3]
       = [Some [''b'', ''x''], Some [''b'', ''y'']]"
    by (simp_all add: orderExample_def normalize_eval pathOfId_def)
  from normalize_independent_of_key_order[OF same strings, of 0 0 7] same strings listing
  show ?thesis by blast
qed

end
